theory Spec2Isabelle
  imports Main
begin

section \<open>Motzkin paths of a given length and minimum width (motzkin.py)\<close>

text \<open>
  The repository is one Python file with two functions: \<^verbatim>\<open>motzkinlengthk\<close>, which counts
  the Motzkin paths of a length and minimum width by a memoised recursion, and
  \<^verbatim>\<open>motzkin_sequences\<close>, a generator that yields the paths themselves as strings over
  \<^verbatim>\<open>.\<close>, \<^verbatim>\<open>(\<close> and \<^verbatim>\<open>)\<close>.

  Python integers are unbounded, so lengths and widths are \<^typ>\<open>int\<close>. Neither function
  tests the sign of its arguments, and on a negative length both recurse on \<^verbatim>\<open>length-1\<close>
  for ever; the models therefore carry a recursion budget (the first argument, the number
  of nested calls still allowed) and return \<^term>\<open>None\<close> when it is used up. A call of the
  program returns exactly when some budget gives \<^term>\<open>Some\<close>. (The interpreter's own
  recursion limit, a setting of the Python process, is not part of the model.)
\<close>

subsection \<open>The counter\<close>

text \<open>
  \<^verbatim>\<open>def motzkinlengthk(length, width, memoize={0: 1})\<close>: the default value of \<^verbatim>\<open>memoize\<close> is
  one dictionary, created when the function is defined and shared by every call that does
  not pass its own, which includes all the recursive calls. It is the state of the counter:
  a map from lengths to counts, passed in and returned.
\<close>

type_synonym memo = "int \<rightharpoonup> int"

definition memoize0 :: memo where
  "memoize0 = [0 \<mapsto> 1]"

text \<open>
  \<^verbatim>\<open>
    if length not in memoize:
        sequence1shorter = motzkinlengthk(length-1, width)
        sequencecount = 0
        for length_inside_first_set in range(width, (length-2)+1):
            stuff_in_first_set = motzkinlengthk(length_inside_first_set, width)
            stuff_after_first_set = motzkinlengthk(length-2-length_inside_first_set, width)
            sequencecount = sequencecount + stuff_in_first_set * stuff_after_first_set
        memoize[length] = sequence1shorter + sequencecount
    return memoize[length]
  \<close>
  \<open>sequencecount_loop\<close> is the \<^verbatim>\<open>for\<close> loop, over the values of \<^verbatim>\<open>range\<close> still to visit, with
  \<^verbatim>\<open>sequencecount\<close> as accumulator.
\<close>

fun motzkinlengthk :: "nat \<Rightarrow> int \<Rightarrow> int \<Rightarrow> memo \<Rightarrow> (int \<times> memo) option"
  and sequencecount_loop :: "nat \<Rightarrow> int \<Rightarrow> int \<Rightarrow> int list \<Rightarrow> int \<Rightarrow> memo \<Rightarrow> (int \<times> memo) option"
where
  "motzkinlengthk 0 len width memoize = None"
| "motzkinlengthk (Suc fuel) len width memoize =
     (case memoize len of
        Some v \<Rightarrow> Some (v, memoize)
      | None \<Rightarrow>
         (case motzkinlengthk fuel (len - 1) width memoize of
            None \<Rightarrow> None
          | Some (sequence1shorter, memoize1) \<Rightarrow>
             (case sequencecount_loop fuel len width [width..(len - 2)] 0 memoize1 of
                None \<Rightarrow> None
              | Some (sequencecount, memoize2) \<Rightarrow>
                  Some (sequence1shorter + sequencecount,
                        memoize2(len \<mapsto> sequence1shorter + sequencecount)))))"
| "sequencecount_loop fuel len width [] sequencecount memoize = Some (sequencecount, memoize)"
| "sequencecount_loop fuel len width (length_inside_first_set # todo) sequencecount memoize =
     (case motzkinlengthk fuel length_inside_first_set width memoize of
        None \<Rightarrow> None
      | Some (stuff_in_first_set, memoize1) \<Rightarrow>
         (case motzkinlengthk fuel (len - 2 - length_inside_first_set) width memoize1 of
            None \<Rightarrow> None
          | Some (stuff_after_first_set, memoize2) \<Rightarrow>
              sequencecount_loop fuel len width todo
                (sequencecount + stuff_in_first_set * stuff_after_first_set) memoize2))"

subsection \<open>The enumerator\<close>

text \<open>
  \<^verbatim>\<open>motzkin_sequences(length, minwidth)\<close> is a generator. The model is the list of the strings
  it yields when it is consumed to the end, in the order it yields them, or \<^term>\<open>None\<close>
  when consuming it does not end within the budget.
  \<^verbatim>\<open>
    if length == 0:
        yield ''
    else:
        dot_before_prev_possibilities = ('.' + seq for seq in motzkin_sequences(length-1, minwidth))
        for sequence in dot_before_prev_possibilities:
            yield sequence
        for length_inside_first_set in range(minwidth, length-2+1):
            length_after_first_set = length-2-length_inside_first_set
            stuff_inside_first_set = [sequence for sequence in
                                      motzkin_sequences(length_inside_first_set, minwidth)]
            stuff_after_first_set = [sequence for sequence in
                                     motzkin_sequences(length_after_first_set, minwidth)]
            for inside in stuff_inside_first_set:
                for after in stuff_after_first_set:
                    sequence = '({inside}){after}'.format(inside=inside, after=after)
                    yield sequence
  \<close>
  \<open>paren_loop\<close> is the second \<^verbatim>\<open>for\<close> loop, over the values of \<^verbatim>\<open>range\<close> still to visit.
\<close>

fun motzkin_sequences :: "nat \<Rightarrow> int \<Rightarrow> int \<Rightarrow> string list option"
  and paren_loop :: "nat \<Rightarrow> int \<Rightarrow> int \<Rightarrow> int list \<Rightarrow> string list option"
where
  "motzkin_sequences 0 len minwidth = None"
| "motzkin_sequences (Suc fuel) len minwidth =
     (if len = 0 then Some ['''']
      else
        (case motzkin_sequences fuel (len - 1) minwidth of
           None \<Rightarrow> None
         | Some prev \<Rightarrow>
            (case paren_loop fuel len minwidth [minwidth..(len - 2)] of
               None \<Rightarrow> None
             | Some parens \<Rightarrow> Some (map (\<lambda>seq. ''.'' @ seq) prev @ parens))))"
| "paren_loop fuel len minwidth [] = Some []"
| "paren_loop fuel len minwidth (length_inside_first_set # todo) =
     (case motzkin_sequences fuel length_inside_first_set minwidth of
        None \<Rightarrow> None
      | Some stuff_inside_first_set \<Rightarrow>
         (case motzkin_sequences fuel (len - 2 - length_inside_first_set) minwidth of
            None \<Rightarrow> None
          | Some stuff_after_first_set \<Rightarrow>
             (case paren_loop fuel len minwidth todo of
                None \<Rightarrow> None
              | Some later \<Rightarrow>
                  Some (concat (map (\<lambda>inside. map (\<lambda>after. ''('' @ inside @ '')'' @ after)
                                                 stuff_after_first_set)
                                    stuff_inside_first_set) @ later))))"

subsection \<open>The results as total functions of natural numbers\<close>

text \<open>
  The recurrence of the specification, in its words: \<open>count(0, w) = 1\<close>, and for
  \<open>length \<ge> 1\<close>, \<open>count(length, w) = count(length-1, w) +\<close> the sum over \<open>inner\<close> from \<open>w\<close>
  to \<open>length-2\<close> of \<open>count(inner, w) * count(length-2-inner, w)\<close>. With \<open>length = Suc n\<close> the
  bounds \<open>w \<le> inner \<le> length-2\<close> read \<open>w \<le> inner < n\<close>, and \<open>length-2-inner = n-1-inner\<close>.
\<close>

fun count_spec :: "nat \<Rightarrow> nat \<Rightarrow> int" where
  "count_spec w 0 = 1"
| "count_spec w (Suc n) =
     count_spec w n + (\<Sum>inner = w..<n. count_spec w inner * count_spec w (n - 1 - inner))"

text \<open>
  The list that \<open>motzkin_sequences\<close> returns for a length \<open>n\<close> and a minimum width \<open>w\<close> that
  are not negative (lemma \<open>motzkin_sequences_paths\<close> below).
\<close>

fun paths :: "nat \<Rightarrow> nat \<Rightarrow> string list" where
  "paths w 0 = ['''']"
| "paths w (Suc n) =
     map (\<lambda>seq. ''.'' @ seq) (paths w n) @
     concat (map (\<lambda>inner.
                concat (map (\<lambda>inside. map (\<lambda>after. ''('' @ inside @ '')'' @ after)
                                          (paths w (n - 1 - inner)))
                            (paths w inner)))
             [w..<n])"


text \<open>
  A cache is \<open>cache_for w\<close> when it holds the initial entry for length 0 and every entry
  it holds is the count for minimum width \<open>w\<close>: the cache of a new process, and the cache
  left by calls that all had the width \<open>w\<close>.
\<close>

definition cache_for :: "nat \<Rightarrow> memo \<Rightarrow> bool" where
  "cache_for w m \<longleftrightarrow>
     m 0 = Some 1 \<and> (\<forall>k v. m k = Some v \<longrightarrow> 0 \<le> k \<and> v = count_spec w (nat k))"

text \<open>
  What every cache that the program can reach satisfies, whatever the widths of the calls
  that filled it: the entry of the default argument, \<open>0: 1\<close>, is still there and no key is
  negative.
\<close>

definition cache_keys_ok :: "memo \<Rightarrow> bool" where
  "cache_keys_ok m \<longleftrightarrow> m 0 = Some 1 \<and> (\<forall>k. m k \<noteq> None \<longrightarrow> 0 \<le> k)"

subsection \<open>The invariants of a path\<close>

text \<open>
  The program has no function that checks a path; the three invariants are those of the
  data model of the specification. Prefix balance: in every prefix the number of \<^verbatim>\<open>(\<close> is
  at least the number of \<^verbatim>\<open>)\<close>. Total balance: the two numbers are equal over the whole
  string.
\<close>

definition prefix_balance :: "string \<Rightarrow> bool" where
  "prefix_balance s \<longleftrightarrow>
     (\<forall>k\<in>set [0..<Suc (length s)].
        count_list (take k s) CHR '')'' \<le> count_list (take k s) CHR ''('')"

definition total_balance :: "string \<Rightarrow> bool" where
  "total_balance s \<longleftrightarrow> count_list s CHR ''('' = count_list s CHR '')''"

text \<open>
  The matched pairs of a string, by the usual matching of brackets: a stack of the
  positions of the \<^verbatim>\<open>(\<close> still open, and each \<^verbatim>\<open>)\<close> at position \<open>q\<close> is paired with the
  position \<open>p\<close> on top of the stack. The pair encloses the \<open>q - p - 1\<close> symbols strictly
  between the two marks, and the minimum width asks this to be at least \<open>w\<close> for every pair.
\<close>

fun matched_pairs :: "nat list \<Rightarrow> nat \<Rightarrow> string \<Rightarrow> (nat \<times> nat) list" where
  "matched_pairs stack i [] = []"
| "matched_pairs stack i (c # cs) =
     (if c = CHR ''('' then matched_pairs (i # stack) (Suc i) cs
      else if c = CHR '')'' then
        (case stack of
           [] \<Rightarrow> matched_pairs [] (Suc i) cs
         | p # stack' \<Rightarrow> (p, i) # matched_pairs stack' (Suc i) cs)
      else matched_pairs stack (Suc i) cs)"

definition minimum_width :: "nat \<Rightarrow> string \<Rightarrow> bool" where
  "minimum_width w s \<longleftrightarrow> (\<forall>(p, q)\<in>set (matched_pairs [] 0 s). w \<le> q - p - 1)"

text \<open>
  The strings that the decomposition of \<open>motzkin_sequences\<close> builds, as an inductive set:
  the empty string, a dot before a path, and a pair of marks around a path of length at
  least \<open>w\<close>, followed by a path. It serves the proofs only (lemma \<open>paths_motzkin\<close>).
\<close>

inductive motzkin :: "nat \<Rightarrow> string \<Rightarrow> bool" for w :: nat where
  empty: "motzkin w ''''"
| dot: "motzkin w s \<Longrightarrow> motzkin w (''.'' @ s)"
| pair: "motzkin w a \<Longrightarrow> motzkin w b \<Longrightarrow> w \<le> length a \<Longrightarrow> motzkin w (''('' @ a @ '')'' @ b)"

text \<open>
  The caches that a process can reach: the dictionary of the default argument, and the
  cache that any returning call leaves, whatever its arguments.
\<close>

inductive cache_reachable :: "memo \<Rightarrow> bool" where
  initial: "cache_reachable memoize0"
| call: "cache_reachable m \<Longrightarrow> motzkinlengthk fuel len width m = Some (c, m') \<Longrightarrow>
     cache_reachable m'"

text \<open>Every count in the cache is at least 1.\<close>

definition cache_positive :: "memo \<Rightarrow> bool" where
  "cache_positive m \<longleftrightarrow> (\<forall>k v. m k = Some v \<longrightarrow> 1 \<le> v)"

subsection \<open>The generator object\<close>

text \<open>
  A call of \<^verbatim>\<open>motzkin_sequences\<close> runs none of its body: it returns a generator object, and
  each \<^verbatim>\<open>next()\<close> on the object runs the body up to the next \<^verbatim>\<open>yield\<close>. For the claim about
  two invocations the object is modelled with its suspended frame. A value of \<open>gen\<close> is the
  state of one generator object between two calls of \<^verbatim>\<open>next()\<close>:
  \<^item> \<open>Start length minwidth\<close>: created, the body not entered yet;
  \<^item> \<open>AfterEmpty\<close>: suspended at \<^verbatim>\<open>yield ''\<close>;
  \<^item> \<open>InDots length minwidth sub\<close>: suspended at \<^verbatim>\<open>yield sequence\<close> in the first loop, where
    \<open>sub\<close> is the generator \<^verbatim>\<open>motzkin_sequences(length-1, minwidth)\<close> that the generator
    expression \<^verbatim>\<open>dot_before_prev_possibilities\<close> consumes;
  \<^item> \<open>InParens length minwidth todo inside insides stuff_after afters\<close>: suspended at the
    \<^verbatim>\<open>yield\<close> of the nested loops, where \<open>todo\<close> are the values of \<^verbatim>\<open>range\<close> still to
    visit, \<open>inside\<close> is the current element of the outer loop, \<open>insides\<close> are the elements
    of \<^verbatim>\<open>stuff_inside_first_set\<close> still to visit, \<open>stuff_after\<close> is the whole list
    \<^verbatim>\<open>stuff_after_first_set\<close> and \<open>afters\<close> are its elements that the inner loop has still
    to visit;
  \<^item> \<open>Finished\<close>: the body has returned, and \<^verbatim>\<open>next()\<close> raises StopIteration.
  All the state of the iteration is in this value: the body reads and writes only its
  arguments and local variables (it does not touch \<^verbatim>\<open>memoize\<close>).
\<close>

datatype gen =
    Start int int
  | AfterEmpty
  | InDots int int gen
  | InParens int int "int list" string "string list" "string list" "string list"
  | Finished

text \<open>
  Resuming the nested loops \<^verbatim>\<open>for inside in ...: for after in ...: yield\<close>: the next
  element of the inner loop if there is one, otherwise the next element of the outer loop
  with the inner loop started again over the whole \<^verbatim>\<open>stuff_after_first_set\<close>. The result is
  the string yielded with the new positions of the two loops, or \<^term>\<open>None\<close> when both
  loops are exhausted.
\<close>

fun pairs_step :: "string \<Rightarrow> string list \<Rightarrow> string list \<Rightarrow> string list \<Rightarrow>
    (string \<times> string \<times> string list \<times> string list) option" where
  "pairs_step inside insides stuff_after (after # afters) =
     Some (''('' @ inside @ '')'' @ after, inside, insides, afters)"
| "pairs_step inside [] stuff_after [] = None"
| "pairs_step inside (inside' # insides) stuff_after [] =
     pairs_step inside' insides stuff_after stuff_after"

text \<open>
  \<open>gen_next fuel g\<close> is one call of \<^verbatim>\<open>next()\<close> on an object in state \<open>g\<close>: \<^term>\<open>None\<close> when
  it does not return within the budget, \<open>Some (Some s, g')\<close> when it yields \<open>s\<close> and leaves
  the object in state \<open>g'\<close>, and \<open>Some (None, g')\<close> when it raises StopIteration.
  \<open>dots_loop\<close> is one iteration of the first \<^verbatim>\<open>for\<close> loop (it asks the sub-generator for
  its next string, and goes on to the second loop when there is none), \<open>range_loop\<close> is
  the second \<^verbatim>\<open>for\<close> loop from its header, over the values of \<^verbatim>\<open>range\<close> still to visit, and
  \<open>list_of\<close> is the list comprehension \<^verbatim>\<open>[sequence for sequence in g]\<close>.
\<close>

fun gen_next :: "nat \<Rightarrow> gen \<Rightarrow> (string option \<times> gen) option"
  and dots_loop :: "nat \<Rightarrow> int \<Rightarrow> int \<Rightarrow> gen \<Rightarrow> (string option \<times> gen) option"
  and range_loop :: "nat \<Rightarrow> int \<Rightarrow> int \<Rightarrow> int list \<Rightarrow> (string option \<times> gen) option"
  and list_of :: "nat \<Rightarrow> gen \<Rightarrow> string list option"
where
  "gen_next 0 g = None"
| "gen_next (Suc fuel) (Start len minwidth) =
     (if len = 0 then Some (Some '''', AfterEmpty)
      else dots_loop fuel len minwidth (Start (len - 1) minwidth))"
| "gen_next (Suc fuel) AfterEmpty = Some (None, Finished)"
| "gen_next (Suc fuel) (InDots len minwidth sub) = dots_loop fuel len minwidth sub"
| "gen_next (Suc fuel) (InParens len minwidth todo inside insides stuff_after afters) =
     (case pairs_step inside insides stuff_after afters of
        Some (sequence, inside', insides', afters') \<Rightarrow>
          Some (Some sequence, InParens len minwidth todo inside' insides' stuff_after afters')
      | None \<Rightarrow> range_loop fuel len minwidth todo)"
| "gen_next (Suc fuel) Finished = Some (None, Finished)"
| "dots_loop fuel len minwidth sub =
     (case gen_next fuel sub of
        None \<Rightarrow> None
      | Some (Some seq, sub') \<Rightarrow> Some (Some (''.'' @ seq), InDots len minwidth sub')
      | Some (None, sub') \<Rightarrow> range_loop fuel len minwidth [minwidth..(len - 2)])"
| "range_loop fuel len minwidth [] = Some (None, Finished)"
| "range_loop fuel len minwidth (length_inside_first_set # todo) =
     (case list_of fuel (Start length_inside_first_set minwidth) of
        None \<Rightarrow> None
      | Some stuff_inside_first_set \<Rightarrow>
         (case list_of fuel (Start (len - 2 - length_inside_first_set) minwidth) of
            None \<Rightarrow> None
          | Some stuff_after_first_set \<Rightarrow>
             (case stuff_inside_first_set of
                [] \<Rightarrow> range_loop fuel len minwidth todo
              | inside # insides \<Rightarrow>
                 (case pairs_step inside insides stuff_after_first_set stuff_after_first_set of
                    Some (sequence, inside', insides', afters') \<Rightarrow>
                      Some (Some sequence,
                            InParens len minwidth todo inside' insides' stuff_after_first_set afters')
                  | None \<Rightarrow> range_loop fuel len minwidth todo))))"
| "list_of 0 g = None"
| "list_of (Suc fuel) g =
     (case gen_next fuel g of
        None \<Rightarrow> None
      | Some (None, g') \<Rightarrow> Some []
      | Some (Some sequence, g') \<Rightarrow>
         (case list_of fuel g' of None \<Rightarrow> None | Some rest \<Rightarrow> Some (sequence # rest)))"

text \<open>What the nested loops still yield from the positions \<open>inside\<close>, \<open>insides\<close>, \<open>afters\<close>.\<close>

definition pairs_list :: "string \<Rightarrow> string list \<Rightarrow> string list \<Rightarrow> string list \<Rightarrow> string list" where
  "pairs_list inside insides stuff_after afters =
     map (\<lambda>after. ''('' @ inside @ '')'' @ after) afters @
     concat (map (\<lambda>inside. map (\<lambda>after. ''('' @ inside @ '')'' @ after) stuff_after) insides)"

text \<open>
  Two generator objects consumed in turns: the schedule says on which of the two each call
  of \<^verbatim>\<open>next()\<close> is made (\<open>True\<close> for the first), and the result is the list of the strings
  that each object yielded, in order. A call that raises StopIteration adds nothing.
\<close>

fun interleave :: "nat \<Rightarrow> bool list \<Rightarrow> gen \<Rightarrow> gen \<Rightarrow> (string list \<times> string list) option" where
  "interleave fuel [] g1 g2 = Some ([], [])"
| "interleave fuel (True # schedule) g1 g2 =
     (case gen_next fuel g1 of
        None \<Rightarrow> None
      | Some (yielded, g1') \<Rightarrow>
         (case interleave fuel schedule g1' g2 of
            None \<Rightarrow> None
          | Some (out1, out2) \<Rightarrow>
              Some (case yielded of None \<Rightarrow> out1 | Some sequence \<Rightarrow> sequence # out1, out2)))"
| "interleave fuel (False # schedule) g1 g2 =
     (case gen_next fuel g2 of
        None \<Rightarrow> None
      | Some (yielded, g2') \<Rightarrow>
         (case interleave fuel schedule g1 g2' of
            None \<Rightarrow> None
          | Some (out1, out2) \<Rightarrow>
              Some (out1, case yielded of None \<Rightarrow> out2 | Some sequence \<Rightarrow> sequence # out2)))"

section \<open>The models on natural-number arguments\<close>

lemma upto_int_conv: "[int a..int b - 1] = map int [a..<b]"
proof (induction b)
  case 0
  then show ?case by simp
next
  case (Suc b)
  show ?case
  proof (cases "a \<le> b")
    case True
    then have "[int a..int (Suc b) - 1] = [int a..int b - 1] @ [int b]"
      using upto_rec2 [of "int a" "int b"] by simp
    with Suc True show ?thesis by simp
  next
    case False
    then show ?thesis by simp
  qed
qed

lemma paren_loop_paths:
  assumes IH: "\<And>k. k < fuel \<Longrightarrow> motzkin_sequences fuel (int k) (int w) = Some (paths w k)"
    and "n \<le> fuel"
  shows "\<forall>i\<in>set todo. i < n \<Longrightarrow>
     paren_loop fuel (int (Suc n)) (int w) (map int todo) =
       Some (concat (map (\<lambda>inner.
                concat (map (\<lambda>inside. map (\<lambda>after. ''('' @ inside @ '')'' @ after)
                                          (paths w (n - 1 - inner)))
                            (paths w inner)))
             todo))"
proof (induction todo)
  case Nil
  then show ?case by simp
next
  case (Cons i todo)
  then have i: "i < n" by simp
  have a: "int (Suc n) - 2 - int i = int (n - 1 - i)" using i by simp
  have "motzkin_sequences fuel (int i) (int w) = Some (paths w i)"
    using IH i assms(2) by simp
  moreover have "motzkin_sequences fuel (int (n - 1 - i)) (int w) = Some (paths w (n - 1 - i))"
  proof (rule IH)
    show "n - 1 - i < fuel" using i assms(2) by simp
  qed
  ultimately show ?case using Cons a by simp
qed

lemma motzkin_sequences_paths:
  "n < fuel \<Longrightarrow> motzkin_sequences fuel (int n) (int w) = Some (paths w n)"
proof (induction fuel arbitrary: n)
  case 0
  then show ?case by simp
next
  case (Suc fuel)
  show ?case
  proof (cases n)
    case 0
    then show ?thesis by simp
  next
    case (Suc n')
    then have n': "n' < fuel" using Suc.prems by simp
    have prev: "motzkin_sequences fuel (int n') (int w) = Some (paths w n')"
      using Suc.IH n' by simp
    have "paren_loop fuel (int (Suc n')) (int w) (map int [w..<n']) = 
       Some (concat (map (\<lambda>inner.
                concat (map (\<lambda>inside. map (\<lambda>after. ''('' @ inside @ '')'' @ after)
                                          (paths w (n' - 1 - inner)))
                            (paths w inner)))
             [w..<n']))"
      using paren_loop_paths [of fuel w n' "[w..<n']"] Suc.IH n' by simp
    moreover have "[int w..int (Suc n') - 2] = map int [w..<n']"
      using upto_int_conv [of w n'] by simp
    ultimately show ?thesis using prev Suc by simp
  qed
qed


lemma cache_for_memoize0: "cache_for w memoize0"
  by (simp add: cache_for_def memoize0_def)

lemma cache_for_lookup: "cache_for w m \<Longrightarrow> m (int k) = Some v \<Longrightarrow> v = count_spec w k"
proof -
  assume "cache_for w m" and "m (int k) = Some v"
  then have "v = count_spec w (nat (int k))" unfolding cache_for_def by blast
  then show ?thesis by simp
qed

lemma length_product:
  "length (concat (map (\<lambda>a. map (f a) ys) xs)) = length xs * length ys"
  by (induction xs) auto

lemma cache_for_update:
  "cache_for w m \<Longrightarrow> cache_for w (m(int k \<mapsto> count_spec w k))"
  by (auto simp: cache_for_def)

lemma sequencecount_loop_spec:
  assumes IH: "\<And>k m. k < fuel \<Longrightarrow> cache_for w m \<Longrightarrow>
      \<exists>m'. motzkinlengthk fuel (int k) (int w) m = Some (count_spec w k, m') \<and> cache_for w m'"
    and "n \<le> fuel"
  shows "\<forall>i\<in>set todo. i < n \<Longrightarrow> cache_for w m \<Longrightarrow>
     \<exists>m'. sequencecount_loop fuel (int (Suc n)) (int w) (map int todo) acc m =
            Some (acc + (\<Sum>i\<leftarrow>todo. count_spec w i * count_spec w (n - 1 - i)), m')
          \<and> cache_for w m'"
proof (induction todo arbitrary: acc m)
  case Nil
  then show ?case by simp
next
  case (Cons i todo)
  then have i: "i < n" by simp
  have a: "int (Suc n) - 2 - int i = int (n - 1 - i)" using i by simp
  obtain m1 where m1: "motzkinlengthk fuel (int i) (int w) m = Some (count_spec w i, m1)"
    "cache_for w m1"
    using IH [of i m] i assms(2) Cons.prems(2) by auto
  have "n - 1 - i < fuel" using i assms(2) by simp
  then obtain m2 where m2:
    "motzkinlengthk fuel (int (n - 1 - i)) (int w) m1 = Some (count_spec w (n - 1 - i), m2)"
    "cache_for w m2"
    using IH [of "n - 1 - i" m1] m1(2) by auto
  obtain m' where m': "sequencecount_loop fuel (int (Suc n)) (int w) (map int todo)
        (acc + count_spec w i * count_spec w (n - 1 - i)) m2 =
      Some (acc + count_spec w i * count_spec w (n - 1 - i)
             + (\<Sum>i\<leftarrow>todo. count_spec w i * count_spec w (n - 1 - i)), m')"
    "cache_for w m'"
    using Cons.IH [of m2 "acc + count_spec w i * count_spec w (n - 1 - i)"] Cons.prems(1) m2(2)
    by auto
  have "sequencecount_loop fuel (int (Suc n)) (int w) (map int (i # todo)) acc m =
      sequencecount_loop fuel (int (Suc n)) (int w) (map int todo)
        (acc + count_spec w i * count_spec w (n - 1 - i)) m2"
    using m1(1) m2(1) a by simp
  with m' show ?case by (auto simp: algebra_simps)
qed

lemma motzkinlengthk_spec:
  "n < fuel \<Longrightarrow> cache_for w m \<Longrightarrow>
     \<exists>m'. motzkinlengthk fuel (int n) (int w) m = Some (count_spec w n, m') \<and> cache_for w m'"
proof (induction fuel arbitrary: n m)
  case 0
  then show ?case by simp
next
  case (Suc fuel)
  show ?case
  proof (cases "m (int n)")
    case (Some v)
    then have "v = count_spec w n" using Suc.prems(2) cache_for_lookup by blast
    with Some Suc.prems(2) show ?thesis by simp
  next
    case None
    have "n \<noteq> 0"
    proof
      assume "n = 0"
      with None Suc.prems(2) show False by (simp add: cache_for_def)
    qed
    then obtain n' where n: "n = Suc n'" by (cases n) auto
    then have n': "n' < fuel" using Suc.prems by simp
    obtain m1 where m1: "motzkinlengthk fuel (int n') (int w) m = Some (count_spec w n', m1)"
      "cache_for w m1"
      using Suc.IH [of n' m] n' Suc.prems(2) by auto
    have "\<exists>m'. sequencecount_loop fuel (int (Suc n')) (int w) (map int [w..<n']) 0 m1 =
            Some (0 + (\<Sum>i\<leftarrow>[w..<n']. count_spec w i * count_spec w (n' - 1 - i)), m')
          \<and> cache_for w m'"
    proof (rule sequencecount_loop_spec)
      show "n' \<le> fuel" using n' by simp
      show "\<forall>i\<in>set [w..<n']. i < n'" by simp
      show "cache_for w m1" by (rule m1(2))
    qed (rule Suc.IH)
    then obtain m2 where m2:
      "sequencecount_loop fuel (int (Suc n')) (int w) (map int [w..<n']) 0 m1 =
         Some ((\<Sum>i\<leftarrow>[w..<n']. count_spec w i * count_spec w (n' - 1 - i)), m2)"
      "cache_for w m2"
      by auto
    have rng: "[int w..int (Suc n') - 2] = map int [w..<n']"
      using upto_int_conv [of w n'] by simp
    have val: "count_spec w (Suc n') =
        count_spec w n' + (\<Sum>i\<leftarrow>[w..<n']. count_spec w i * count_spec w (n' - 1 - i))"
      by (simp add: interv_sum_list_conv_sum_set_nat)
    have "motzkinlengthk (Suc fuel) (int (Suc n')) (int w) m =
        Some (count_spec w (Suc n'), m2(int (Suc n') \<mapsto> count_spec w (Suc n')))"
      using None m1(1) m2(1) rng val unfolding n by simp
    moreover have "cache_for w (m2(int (Suc n') \<mapsto> count_spec w (Suc n')))"
      using m2(2) by (rule cache_for_update)
    ultimately show ?thesis unfolding n by blast
  qed
qed

lemma length_paths: "int (length (paths w n)) = count_spec w n"
proof (induction n rule: less_induct)
  case (less n)
  show ?case
  proof (cases n)
    case 0
    then show ?thesis by simp
  next
    case (Suc n')
    have inner: "int (length (concat (map (\<lambda>inside. map (\<lambda>after. ''('' @ inside @ '')'' @ after)
                                          (paths w (n' - 1 - i))) (paths w i)))) =
        count_spec w i * count_spec w (n' - 1 - i)" if "i < n'" for i
    proof -
      have "length (concat (map (\<lambda>inside. map (\<lambda>after. ''('' @ inside @ '')'' @ after)
                                          (paths w (n' - 1 - i))) (paths w i))) =
          length (paths w i) * length (paths w (n' - 1 - i))"
        by (rule length_product)
      moreover have "int (length (paths w i)) = count_spec w i"
        using less [of i] that Suc by simp
      moreover have "int (length (paths w (n' - 1 - i))) = count_spec w (n' - 1 - i)"
        using less [of "n' - 1 - i"] that Suc by simp
      ultimately show ?thesis by (metis of_nat_mult)
    qed
    have "int (length (concat (map (\<lambda>inner.
                concat (map (\<lambda>inside. map (\<lambda>after. ''('' @ inside @ '')'' @ after)
                                          (paths w (n' - 1 - inner)))
                            (paths w inner))) todo))) =
          (\<Sum>i\<leftarrow>todo. count_spec w i * count_spec w (n' - 1 - i))" if "\<forall>i\<in>set todo. i < n'" for todo
      using that
    proof (induction todo)
      case Nil
      then show ?case by simp
    next
      case (Cons i todo)
      then show ?case using inner [of i] by simp
    qed
    from this [of "[w..<n']"] less [of n'] Suc show ?thesis
      by (simp add: interv_sum_list_conv_sum_set_nat)
  qed
qed

lemma all_dots_in_paths: "replicate n CHR ''.'' \<in> set (paths w n)"
  by (induction n) auto

lemma count_spec_pos: "1 \<le> count_spec w n"
proof -
  have "paths w n \<noteq> []" using all_dots_in_paths [of n w] by auto
  then have "1 \<le> int (length (paths w n))" by (cases "paths w n") auto
  then show ?thesis by (simp add: length_paths)
qed

section \<open>Termination and non-termination\<close>

lemma cache_keys_ok_memoize0: "cache_keys_ok memoize0"
  by (simp add: cache_keys_ok_def memoize0_def)

lemma cache_keys_ok_update: "cache_keys_ok m \<Longrightarrow> 0 < k \<Longrightarrow> cache_keys_ok (m(k \<mapsto> v))"
  by (simp add: cache_keys_ok_def)

lemma sequencecount_loop_returns:
  assumes IH: "\<And>k m. k < fuel \<Longrightarrow> cache_keys_ok m \<Longrightarrow>
      \<exists>c m'. motzkinlengthk fuel (int k) (int w) m = Some (c, m') \<and> cache_keys_ok m'"
    and "n \<le> fuel"
  shows "\<forall>i\<in>set todo. i < n \<Longrightarrow> cache_keys_ok m \<Longrightarrow>
     \<exists>c m'. sequencecount_loop fuel (int (Suc n)) (int w) (map int todo) acc m = Some (c, m')
          \<and> cache_keys_ok m'"
proof (induction todo arbitrary: acc m)
  case Nil
  then show ?case by simp
next
  case (Cons i todo)
  then have i: "i < n" by simp
  have a: "int (Suc n) - 2 - int i = int (n - 1 - i)" using i by simp
  obtain c1 m1 where m1: "motzkinlengthk fuel (int i) (int w) m = Some (c1, m1)"
    "cache_keys_ok m1"
    using IH [of i m] i assms(2) Cons.prems(2) by auto
  have "n - 1 - i < fuel" using i assms(2) by simp
  then obtain c2 m2 where m2:
    "motzkinlengthk fuel (int (n - 1 - i)) (int w) m1 = Some (c2, m2)" "cache_keys_ok m2"
    using IH [of "n - 1 - i" m1] m1(2) by auto
  have "sequencecount_loop fuel (int (Suc n)) (int w) (map int (i # todo)) acc m =
      sequencecount_loop fuel (int (Suc n)) (int w) (map int todo) (acc + c1 * c2) m2"
    using m1(1) m2(1) a by simp
  moreover have "\<exists>c m'. sequencecount_loop fuel (int (Suc n)) (int w) (map int todo)
      (acc + c1 * c2) m2 = Some (c, m') \<and> cache_keys_ok m'"
    using Cons.IH [of m2 "acc + c1 * c2"] Cons.prems(1) m2(2) by simp
  ultimately show ?case by simp
qed

lemma motzkinlengthk_returns:
  "n < fuel \<Longrightarrow> cache_keys_ok m \<Longrightarrow>
     \<exists>c m'. motzkinlengthk fuel (int n) (int w) m = Some (c, m') \<and> cache_keys_ok m'"
proof (induction fuel arbitrary: n m)
  case 0
  then show ?case by simp
next
  case (Suc fuel)
  show ?case
  proof (cases "m (int n)")
    case (Some v)
    with Suc.prems(2) show ?thesis by simp
  next
    case None
    have "n \<noteq> 0"
    proof
      assume "n = 0"
      with None Suc.prems(2) show False by (simp add: cache_keys_ok_def)
    qed
    then obtain n' where n: "n = Suc n'" by (cases n) auto
    then have n': "n' < fuel" using Suc.prems by simp
    obtain c1 m1 where m1: "motzkinlengthk fuel (int n') (int w) m = Some (c1, m1)"
      "cache_keys_ok m1"
      using Suc.IH [of n' m] n' Suc.prems(2) by auto
    have "\<exists>c m'. sequencecount_loop fuel (int (Suc n')) (int w) (map int [w..<n']) 0 m1 =
            Some (c, m') \<and> cache_keys_ok m'"
    proof (rule sequencecount_loop_returns)
      show "n' \<le> fuel" using n' by simp
      show "\<forall>i\<in>set [w..<n']. i < n'" by simp
      show "cache_keys_ok m1" by (rule m1(2))
    qed (rule Suc.IH)
    then obtain c2 m2 where m2:
      "sequencecount_loop fuel (int (Suc n')) (int w) (map int [w..<n']) 0 m1 = Some (c2, m2)"
      "cache_keys_ok m2"
      by auto
    have rng: "[int w..int (Suc n') - 2] = map int [w..<n']"
      using upto_int_conv [of w n'] by simp
    have "motzkinlengthk (Suc fuel) (int (Suc n')) (int w) m =
        Some (c1 + c2, m2(int (Suc n') \<mapsto> c1 + c2))"
      using None m1(1) m2(1) rng unfolding n by simp
    moreover have "cache_keys_ok (m2(int (Suc n') \<mapsto> c1 + c2))"
      using m2(2) by (rule cache_keys_ok_update) simp
    ultimately show ?thesis unfolding n by blast
  qed
qed

lemma motzkinlengthk_negative_length:
  "len < 0 \<Longrightarrow> cache_keys_ok m \<Longrightarrow> motzkinlengthk fuel len width m = None"
proof (induction fuel arbitrary: len)
  case 0
  then show ?case by simp
next
  case (Suc fuel)
  have "m len = None" using Suc.prems by (auto simp: cache_keys_ok_def)
  moreover have "motzkinlengthk fuel (len - 1) width m = None"
    using Suc.IH [of "len - 1"] Suc.prems by simp
  ultimately show ?case by simp
qed

lemma motzkin_sequences_negative_length:
  "len < 0 \<Longrightarrow> motzkin_sequences fuel len minwidth = None"
proof (induction fuel arbitrary: len)
  case 0
  then show ?case by simp
next
  case (Suc fuel)
  have "motzkin_sequences fuel (len - 1) minwidth = None"
    using Suc.IH [of "len - 1"] Suc.prems by simp
  with Suc.prems show ?case by simp
qed

lemma motzkinlengthk_keeps_keys:
  "motzkinlengthk fuel len width m = Some (c, m') \<Longrightarrow> cache_keys_ok m \<Longrightarrow> 0 \<le> len" 
  using motzkinlengthk_negative_length [of len m fuel width] by (cases "len < 0") auto

lemma cache_keys_ok_kept:
  "motzkinlengthk fuel len width m = Some (c, m') \<Longrightarrow> cache_keys_ok m \<Longrightarrow> cache_keys_ok m'"
  "sequencecount_loop fuel len width todo acc m = Some (c, m') \<Longrightarrow> cache_keys_ok m \<Longrightarrow>
     cache_keys_ok m'"
proof (induction fuel len width m and fuel len width todo acc m arbitrary: c m' and c m'
    rule: motzkinlengthk_sequencecount_loop.induct)
  case (1 len width memoize)
  then show ?case by simp
next
  case (2 fuel len width memoize)
  show ?case
  proof (cases "memoize len")
    case (Some v)
    with "2.prems" show ?thesis by simp
  next
    case None
    from None "2.prems"(1) obtain c1 m1 where
      m1: "motzkinlengthk fuel (len - 1) width memoize = Some (c1, m1)"
      by (auto split: option.splits)
    from None "2.prems"(1) m1 obtain c2 m2 where
      m2: "sequencecount_loop fuel len width [width..len - 2] 0 m1 = Some (c2, m2)"
      by (auto split: option.splits)
    have ok1: "cache_keys_ok m1" using "2.IH"(1) [OF None m1 "2.prems"(2)] .
    have ok2: "cache_keys_ok m2"
      using "2.IH"(2) [OF None m1 refl m2 ok1] .
    have "0 \<le> len - 1" using motzkinlengthk_keeps_keys [OF m1 "2.prems"(2)] .
    moreover have "len \<noteq> 0" using None "2.prems"(2) by (auto simp: cache_keys_ok_def)
    ultimately have "cache_keys_ok (m2(len \<mapsto> c1 + c2))"
      using ok2 by (simp add: cache_keys_ok_update)
    moreover have "m' = m2(len \<mapsto> c1 + c2)"
      using None "2.prems"(1) m1 m2 by auto
    ultimately show ?thesis by blast
  qed
next
  case (3 fuel len width sequencecount memoize)
  then show ?case by simp
next
  case (4 fuel len width i todo sequencecount memoize)
  from "4.prems"(1) obtain c1 m1 where
    m1: "motzkinlengthk fuel i width memoize = Some (c1, m1)"
    by (auto split: option.splits)
  from "4.prems"(1) m1 obtain c2 m2 where
    m2: "motzkinlengthk fuel (len - 2 - i) width m1 = Some (c2, m2)"
    by (auto split: option.splits)
  have ok1: "cache_keys_ok m1" using "4.IH"(1) [OF m1 "4.prems"(2)] .
  have ok2: "cache_keys_ok m2" using "4.IH"(2) [OF m1 refl m2 ok1] .
  have "sequencecount_loop fuel len width todo (sequencecount + c1 * c2) m2 = Some (c, m')"
    using "4.prems"(1) m1 m2 by simp
  then show ?case using "4.IH"(3) [OF m1 refl m2 refl _ ok2] by simp
qed

lemma motzkinlengthk_negative_width:
  assumes "width < 0" "0 < len" "m len = None" "cache_keys_ok m"
  shows "motzkinlengthk fuel len width m = None"
proof (cases fuel)
  case 0
  then show ?thesis by simp
next
  case (Suc f)
  show ?thesis
  proof (cases "motzkinlengthk f (len - 1) width m")
    case None
    with assms Suc show ?thesis by simp
  next
    case (Some r)
    obtain c1 m1 where r: "r = (c1, m1)" by (cases r)
    have rng: "[width..len - 2] = width # [width + 1..len - 2]"
      using assms(1,2) by (simp add: upto_rec1)
    have "cache_keys_ok m1" using cache_keys_ok_kept(1) Some r assms(4) by blast
    then have "motzkinlengthk f width width m1 = None"
      using assms(1) by (simp add: motzkinlengthk_negative_length)
    then show ?thesis using assms Suc Some r rng by simp
  qed
qed

lemma motzkin_sequences_negative_width:
  assumes "minwidth < 0" "0 < len"
  shows "motzkin_sequences fuel len minwidth = None"
proof (cases fuel)
  case 0
  then show ?thesis by simp
next
  case (Suc f)
  have rng: "[minwidth..len - 2] = minwidth # [minwidth + 1..len - 2]"
    using assms by (simp add: upto_rec1)
  have "motzkin_sequences f minwidth minwidth = None"
    using assms(1) by (rule motzkin_sequences_negative_length)
  then show ?thesis using assms Suc rng by (simp split: option.splits)
qed

section \<open>The counter and the enumerator agree\<close>

text \<open>
  The counter reads its process-wide cache, so the integer it returns depends on the cache
  it finds. From the cache of a new process, \<open>{0: 1}\<close>, and from every cache left by earlier
  calls that all had the same width, the counter returns the number of strings that the
  enumerator yields, for every length and minimum width that are not negative.
\<close>

lemma agree_single_width:
  "cache_for w m \<Longrightarrow> n < fuel \<Longrightarrow>
     \<exists>xs. motzkin_sequences fuel (int n) (int w) = Some xs \<and>
          map_option fst (motzkinlengthk fuel (int n) (int w) m) = Some (int (length xs))"
  using motzkinlengthk_spec [of n fuel w m] motzkin_sequences_paths [of n fuel w]
  by (auto simp: length_paths)

text \<open>
  Claim C1 says that for every length in [0,15] and every minimum width in [0, length] the
  number of strings that \<open>motzkin_sequences\<close> produces equals the integer that
  \<open>motzkinlengthk\<close> returns. It fails once the cache holds a count for another width: after
  \<^verbatim>\<open>motzkinlengthk(2, 0)\<close> the call \<^verbatim>\<open>motzkinlengthk(2, 1)\<close> returns the cached 2, while
  \<^verbatim>\<open>motzkin_sequences(2, 1)\<close> yields one string, the two dots.
\<close>

theorem count_disagrees_after_other_width:
  "(case motzkinlengthk 3 2 0 memoize0 of
      None \<Rightarrow> None
    | Some (c, memoize1) \<Rightarrow> map_option fst (motzkinlengthk 3 2 1 memoize1)) = Some 2 \<and>
   motzkin_sequences 3 2 1 = Some [''..'']"
  by code_simp

section \<open>The recurrence of the counter\<close>

text \<open>
  The function \<open>count_spec\<close> is defined by the two equations of the recurrence, and
  \<open>motzkinlengthk\<close> returns its value from the cache of a new process and from every cache
  left by calls that all had the same width.
\<close>

lemma recurrence_single_width:
  "cache_for w m \<Longrightarrow> n < fuel \<Longrightarrow>
     map_option fst (motzkinlengthk fuel (int n) (int w) m) = Some (count_spec w n)"
  using motzkinlengthk_spec [of n fuel w m] by auto

text \<open>
  Claim C2 says that \<open>count(0, w) = 1\<close> for every width, and that for every length of at
  least 1, \<open>count(length, w) = count(length-1, w) +\<close> the sum over \<open>inner\<close> from \<open>w\<close> to
  \<open>length-2\<close> (an empty sum is 0) of \<open>count(inner, w) * count(length-2-inner, w)\<close>. The
  values that the program returns break the second equation once the cache holds a count
  for another width: after \<^verbatim>\<open>motzkinlengthk(2, 0)\<close>, the call \<^verbatim>\<open>motzkinlengthk(2, 1)\<close>
  returns 2 and the call \<^verbatim>\<open>motzkinlengthk(1, 1)\<close> returns 1, and for length 2 and width 1
  the range of \<open>inner\<close>, from 1 to 0, is empty, so the right-hand side is 1.
\<close>

theorem recurrence_broken_after_other_width:
  "(case motzkinlengthk 3 2 0 memoize0 of
      None \<Rightarrow> None
    | Some (c, memoize1) \<Rightarrow>
       (case motzkinlengthk 3 2 1 memoize1 of
          None \<Rightarrow> None
        | Some (count_2_1, memoize2) \<Rightarrow>
           (case motzkinlengthk 3 1 1 memoize2 of
              None \<Rightarrow> None
            | Some (count_1_1, memoize3) \<Rightarrow> Some (count_2_1, count_1_1)))) = Some (2, 1) \<and>
   [1..(2::int) - 2] = [] \<and> count_spec 1 2 = 1"
  by code_simp

section \<open>The result is never empty\<close>

lemma cache_positive_kept:
  "motzkinlengthk fuel len width m = Some (c, m') \<Longrightarrow> cache_positive m \<Longrightarrow>
     cache_positive m' \<and> 1 \<le> c"
  "sequencecount_loop fuel len width todo acc m = Some (c, m') \<Longrightarrow> cache_positive m \<Longrightarrow>
     0 \<le> acc \<Longrightarrow> cache_positive m' \<and> 0 \<le> c"
proof (induction fuel len width m and fuel len width todo acc m arbitrary: c m' and c m'
    rule: motzkinlengthk_sequencecount_loop.induct)
  case (1 len width memoize)
  then show ?case by simp
next
  case (2 fuel len width memoize)
  show ?case
  proof (cases "memoize len")
    case (Some v)
    with "2.prems" show ?thesis by (auto simp: cache_positive_def)
  next
    case None
    from None "2.prems"(1) obtain c1 m1 where
      m1: "motzkinlengthk fuel (len - 1) width memoize = Some (c1, m1)"
      by (auto split: option.splits)
    from None "2.prems"(1) m1 obtain c2 m2 where
      m2: "sequencecount_loop fuel len width [width..len - 2] 0 m1 = Some (c2, m2)"
      by (auto split: option.splits)
    have ok1: "cache_positive m1 \<and> 1 \<le> c1" using "2.IH"(1) [OF None m1 "2.prems"(2)] .
    have ok2: "cache_positive m2 \<and> 0 \<le> c2"
      using "2.IH"(2) [OF None m1 refl m2] ok1 by simp
    have res: "c = c1 + c2" "m' = m2(len \<mapsto> c1 + c2)"
      using None "2.prems"(1) m1 m2 by auto
    have "cache_positive (m2(len \<mapsto> c1 + c2))"
      using ok1 ok2 by (auto simp: cache_positive_def)
    then have "cache_positive m'" using res(2) by blast
    moreover have "1 \<le> c" using res(1) ok1 ok2 by linarith
    ultimately show ?thesis by blast
  qed
next
  case (3 fuel len width sequencecount memoize)
  then show ?case by simp
next
  case (4 fuel len width i todo sequencecount memoize)
  from "4.prems"(1) obtain c1 m1 where
    m1: "motzkinlengthk fuel i width memoize = Some (c1, m1)"
    by (auto split: option.splits)
  from "4.prems"(1) m1 obtain c2 m2 where
    m2: "motzkinlengthk fuel (len - 2 - i) width m1 = Some (c2, m2)"
    by (auto split: option.splits)
  have ok1: "cache_positive m1 \<and> 1 \<le> c1" using "4.IH"(1) [OF m1 "4.prems"(2)] .
  have ok2: "cache_positive m2 \<and> 1 \<le> c2" using "4.IH"(2) [OF m1 refl m2] ok1 by simp
  have "0 \<le> c1 * c2" using ok1 ok2 by simp
  then have acc: "0 \<le> sequencecount + c1 * c2" using "4.prems"(3) by simp
  have "sequencecount_loop fuel len width todo (sequencecount + c1 * c2) m2 = Some (c, m')"
    using "4.prems"(1) m1 m2 by simp
  then show ?case using "4.IH"(3) [OF m1 refl m2 refl] ok2 acc by simp
qed

lemma cache_reachable_ok: "cache_reachable m \<Longrightarrow> cache_keys_ok m \<and> cache_positive m"
proof (induction rule: cache_reachable.induct)
  case initial
  show ?case by (simp add: cache_keys_ok_memoize0) (simp add: cache_positive_def memoize0_def)
next
  case (call m fuel len width c m')
  then show ?case using cache_keys_ok_kept(1) cache_positive_kept(1) by blast
qed

text \<open>
  Claim C10. For every length and minimum width that are not negative, the counter returns
  at least 1 and the enumerator yields at least one string: the string of \<open>n\<close> dots is
  always among the strings of length \<open>n\<close>, however large the minimum width is. This holds
  from every cache that the process can reach, whatever the widths of the earlier calls.
\<close>

theorem never_zero:
  "cache_reachable m \<Longrightarrow> n < fuel \<Longrightarrow>
     \<exists>c xs. map_option fst (motzkinlengthk fuel (int n) (int w) m) = Some c \<and> 1 \<le> c \<and>
            motzkin_sequences fuel (int n) (int w) = Some xs \<and>
            replicate n CHR ''.'' \<in> set xs"
proof -
  assume r: "cache_reachable m" and n: "n < fuel"
  obtain c m' where c: "motzkinlengthk fuel (int n) (int w) m = Some (c, m')"
    using motzkinlengthk_returns [OF n, of m w] cache_reachable_ok [OF r] by blast
  have "1 \<le> c" using cache_positive_kept(1) [OF c] cache_reachable_ok [OF r] by simp
  then show ?thesis
    using c motzkin_sequences_paths [OF n, of w] all_dots_in_paths [of n w] by simp
qed

theorem never_zero_witness:
  "cache_reachable memoize0 \<and> (2::nat) < 3 \<and>
     (\<exists>c xs. map_option fst (motzkinlengthk 3 (int 2) (int 7) memoize0) = Some c \<and> 1 \<le> c \<and>
            motzkin_sequences 3 (int 2) (int 7) = Some xs \<and>
            replicate 2 CHR ''.'' \<in> set xs)"
  using never_zero [of memoize0 2 3 7] cache_reachable.initial by simp

section \<open>One cache for every width\<close>

text \<open>
  Claim C3 says that the results for different minimum widths never share a cache. The
  cache is keyed by the length alone: after \<^verbatim>\<open>motzkinlengthk(2, 0)\<close>, which returns 2 and
  stores it under the key 2, the call \<^verbatim>\<open>motzkinlengthk(2, 1)\<close> in the same process returns
  the stored 2, where the recurrence for width 1 gives 1 (and a new process returns 1).
\<close>

theorem cache_shared_across_widths:
  "(case motzkinlengthk 3 2 0 memoize0 of
      None \<Rightarrow> None
    | Some (c, memoize1) \<Rightarrow> map_option fst (motzkinlengthk 3 2 1 memoize1)) = Some 2 \<and>
   map_option fst (motzkinlengthk 3 2 1 memoize0) = Some 1 \<and>
   count_spec 1 2 = 1"
  by code_simp

section \<open>Arguments are not checked\<close>

text \<open>
  Claim C4 says that a call with a negative length or a negative minimum width fails with
  InvalidArgument before recursing. With length 0 and minimum width -1 both functions
  return normally, within a budget of one call: the counter finds 0 in the cache and the
  enumerator yields the empty string.
\<close>

theorem negative_width_accepted:
  "map_option fst (motzkinlengthk 1 0 (- 1) memoize0) = Some 1 \<and>
   motzkin_sequences 1 0 (- 1) = Some ['''']"
  by (simp add: memoize0_def)

text \<open>
  Claim C4, as amended. Neither function tests its arguments, and the program has no
  InvalidArgument error. For a length and a minimum width that are not negative both
  functions return, whatever calls came before. With length 0 both return at once for every
  minimum width, a negative one too: the counter returns 1 and the enumerator yields the
  empty string. With a negative length neither returns: each call recurses on
  \<open>length-1\<close> and no budget is enough (in Python the recursion ends with a RecursionError).
  With a negative minimum width and a positive length the counter does not return unless the
  length is already in the cache, and consuming the enumerator does not end, because the
  loop starts at the negative inner length \<open>minwidth\<close>.
\<close>

theorem no_argument_check:
  "(cache_keys_ok m \<and> n < fuel \<longrightarrow>
      motzkinlengthk fuel (int n) (int w) m \<noteq> None \<and>
      motzkin_sequences fuel (int n) (int w) \<noteq> None) \<and>
   (cache_keys_ok m \<and> 0 < fuel \<longrightarrow>
      map_option fst (motzkinlengthk fuel 0 width m) = Some 1 \<and>
      motzkin_sequences fuel 0 width = Some ['''']) \<and>
   (cache_keys_ok m \<and> len < 0 \<longrightarrow>
      motzkinlengthk fuel len width m = None \<and> motzkin_sequences fuel len width = None) \<and>
   (cache_keys_ok m \<and> width < 0 \<and> 0 < len' \<and> m len' = None \<longrightarrow>
      motzkinlengthk fuel len' width m = None \<and> motzkin_sequences fuel len' width = None)"
proof (intro conjI impI)
  assume a: "cache_keys_ok m \<and> n < fuel"
  show "motzkinlengthk fuel (int n) (int w) m \<noteq> None"
    using motzkinlengthk_returns [of n fuel m w] a by auto
  show "motzkin_sequences fuel (int n) (int w) \<noteq> None"
    using motzkin_sequences_paths [of n fuel w] a by simp
next
  assume a: "cache_keys_ok m \<and> 0 < fuel"
  then obtain f where f: "fuel = Suc f" by (cases fuel) auto
  from a have "m 0 = Some 1" by (auto simp: cache_keys_ok_def)
  then show "map_option fst (motzkinlengthk fuel 0 width m) = Some 1"
    unfolding f by simp
  show "motzkin_sequences fuel 0 width = Some ['''']"
    unfolding f by simp
next
  assume a: "cache_keys_ok m \<and> len < 0"
  then show "motzkinlengthk fuel len width m = None"
    by (simp add: motzkinlengthk_negative_length)
  from a show "motzkin_sequences fuel len width = None"
    by (simp add: motzkin_sequences_negative_length)
next
  assume a: "cache_keys_ok m \<and> width < 0 \<and> 0 < len' \<and> m len' = None"
  then show "motzkinlengthk fuel len' width m = None"
    by (simp add: motzkinlengthk_negative_width)
  from a show "motzkin_sequences fuel len' width = None"
    by (simp add: motzkin_sequences_negative_width)
qed

theorem no_argument_check_witness:
  "cache_keys_ok memoize0 \<and> (2::nat) < 5 \<and> (0::nat) < 5 \<and> (- 1::int) < 0 \<and> (- 3::int) < 0 \<and>
   (0::int) < 1 \<and> memoize0 1 = None \<and>
   motzkinlengthk 5 (int 2) (int 1) memoize0 \<noteq> None \<and>
   motzkin_sequences 5 (int 2) (int 1) \<noteq> None \<and>
   map_option fst (motzkinlengthk 5 0 (- 3) memoize0) = Some 1 \<and>
   motzkin_sequences 5 0 (- 3) = Some [''''] \<and>
   motzkinlengthk 5 (- 1) (- 3) memoize0 = None \<and> motzkin_sequences 5 (- 1) (- 3) = None \<and>
   motzkinlengthk 5 1 (- 3) memoize0 = None \<and> motzkin_sequences 5 1 (- 3) = None"
  using no_argument_check [where m = memoize0 and n = 2 and fuel = 5 and w = 1
      and width = "- 3" and len = "- 1" and len' = 1]
  by (simp add: cache_keys_ok_def memoize0_def)

section \<open>The order of the output\<close>

text \<open>
  Claim C7. For a length \<open>n + 1\<close> the output is, first, a dot followed by each string of the
  result for length \<open>n\<close>, in the order of that result; then one group of strings for each
  inner length from \<open>minwidth\<close> to \<open>length - 2\<close>, ascending (group \<open>j\<close> has the inner length
  \<open>w + j\<close>), and inside a group the strings \<^verbatim>\<open>(inside)after\<close> with the inside string as the
  outer loop and the after string as the inner loop.
\<close>

theorem output_order:
  "Suc n < fuel \<Longrightarrow>
     \<exists>prev groups.
        motzkin_sequences fuel (int n) (int w) = Some prev \<and>
        length groups = n - w \<and>
        (\<forall>j<n - w. \<exists>insides afters.
            motzkin_sequences fuel (int (w + j)) (int w) = Some insides \<and>
            motzkin_sequences fuel (int (n - 1 - (w + j))) (int w) = Some afters \<and>
            groups ! j =
              concat (map (\<lambda>inside. map (\<lambda>after. ''('' @ inside @ '')'' @ after) afters)
                          insides)) \<and>
        motzkin_sequences fuel (int (Suc n)) (int w) =
          Some (map (\<lambda>seq. ''.'' @ seq) prev @ concat groups)"
proof -
  assume fuel: "Suc n < fuel"
  define group where "group = (\<lambda>inner.
      concat (map (\<lambda>inside. map (\<lambda>after. ''('' @ inside @ '')'' @ after)
                                (paths w (n - 1 - inner)))
                  (paths w inner)))"
  have whole: "motzkin_sequences fuel (int (Suc n)) (int w) =
      Some (map (\<lambda>seq. ''.'' @ seq) (paths w n) @ concat (map group [w..<n]))"
    using motzkin_sequences_paths [of "Suc n" fuel w] fuel by (simp add: group_def)
  have prev: "motzkin_sequences fuel (int n) (int w) = Some (paths w n)"
    using motzkin_sequences_paths [of n fuel w] fuel by simp
  have each: "\<exists>insides afters.
            motzkin_sequences fuel (int (w + j)) (int w) = Some insides \<and>
            motzkin_sequences fuel (int (n - 1 - (w + j))) (int w) = Some afters \<and>
            map group [w..<n] ! j =
              concat (map (\<lambda>inside. map (\<lambda>after. ''('' @ inside @ '')'' @ after) afters)
                          insides)" if "j < n - w" for j
  proof -
    have "motzkin_sequences fuel (int (w + j)) (int w) = Some (paths w (w + j))"
      using motzkin_sequences_paths [of "w + j" fuel w] fuel that by simp
    moreover have "motzkin_sequences fuel (int (n - 1 - (w + j))) (int w) =
        Some (paths w (n - 1 - (w + j)))"
      using motzkin_sequences_paths [of "n - 1 - (w + j)" fuel w] fuel by simp
    moreover have "map group [w..<n] ! j = group (w + j)"
      using that by simp
    ultimately show ?thesis by (simp add: group_def)
  qed
  have "length (map group [w..<n]) = n - w" by simp
  with prev each whole show ?thesis by blast
qed

theorem output_order_witness:
  "Suc 3 < (5::nat) \<and>
     (\<exists>prev groups.
        motzkin_sequences 5 (int 3) (int 1) = Some prev \<and>
        length groups = 3 - 1 \<and>
        (\<forall>j<3 - 1. \<exists>insides afters.
            motzkin_sequences 5 (int (1 + j)) (int 1) = Some insides \<and>
            motzkin_sequences 5 (int (3 - 1 - (1 + j))) (int 1) = Some afters \<and>
            groups ! j =
              concat (map (\<lambda>inside. map (\<lambda>after. ''('' @ inside @ '')'' @ after) afters)
                          insides)) \<and>
        motzkin_sequences 5 (int (Suc 3)) (int 1) =
          Some (map (\<lambda>seq. ''.'' @ seq) prev @ concat groups))"
  using output_order [of 3 5 1] by simp

lemma paths_3_8:
  "paths 3 8 =
  [''........'', ''...(...)'', ''..(...).'', ''..(....)'', ''.(...)..'',
   ''.(....).'', ''.(.....)'', ''.((...))'', ''(...)...'', ''(....)..'',
   ''(.....).'', ''((...)).'', ''(......)'', ''(.(...))'', ''((...).)'',
   ''((....))'']"
  by code_simp

section \<open>The example of the docstring\<close>

text \<open>
  Claim C8. \<^verbatim>\<open>motzkin_sequences(8, 3)\<close> yields exactly 16 strings, pairwise distinct; the
  string \<^verbatim>\<open>(.(...))\<close> is among them and the string \<^verbatim>\<open>()......\<close> is not.
\<close>

theorem known_example:
  "8 < fuel \<Longrightarrow>
     \<exists>xs. motzkin_sequences fuel 8 3 = Some xs \<and> length xs = 16 \<and> distinct xs \<and>
          ''(.(...))'' \<in> set xs \<and> ''()......'' \<notin> set xs"
  using motzkin_sequences_paths [of 8 fuel 3] by (simp add: paths_3_8)

theorem known_example_witness:
  "(8::nat) < 9 \<and>
     (\<exists>xs. motzkin_sequences 9 8 3 = Some xs \<and> length xs = 16 \<and> distinct xs \<and>
          ''(.(...))'' \<in> set xs \<and> ''()......'' \<notin> set xs)"
  using known_example [of 9] by simp

section \<open>Every yielded string is a valid path\<close>

lemma paths_motzkin: "s \<in> set (paths w n) \<Longrightarrow> motzkin w s \<and> length s = n"
proof (induction n arbitrary: s rule: less_induct)
  case (less n)
  show ?case
  proof (cases n)
    case 0
    with less.prems show ?thesis by (auto intro: motzkin.empty)
  next
    case (Suc n')
    from less.prems [unfolded Suc] consider
      (d) t where "s = ''.'' @ t" "t \<in> set (paths w n')"
      | (p) inner a b where "w \<le> inner" "inner < n'" "a \<in> set (paths w inner)"
          "b \<in> set (paths w (n' - 1 - inner))" "s = ''('' @ a @ '')'' @ b"
      by auto
    then show ?thesis
    proof cases
      case d
      then have "motzkin w t \<and> length t = n'" using less.IH [of n' t] Suc by simp
      then show ?thesis using d(1) Suc motzkin.dot [of w t] by simp
    next
      case p
      have a: "motzkin w a \<and> length a = inner" using less.IH [of inner a] p Suc by simp
      have b: "motzkin w b \<and> length b = n' - 1 - inner"
        using less.IH [of "n' - 1 - inner" b] p Suc by simp
      have "motzkin w (''('' @ a @ '')'' @ b)" using a b p(1) by (intro motzkin.pair) auto
      then show ?thesis using a b p Suc by simp
    qed
  qed
qed

lemma motzkin_total: "motzkin w s \<Longrightarrow> count_list s CHR ''('' = count_list s CHR '')''"
  by (induction rule: motzkin.induct) auto

lemma motzkin_prefix:
  "motzkin w s \<Longrightarrow> count_list (take k s) CHR '')'' \<le> count_list (take k s) CHR ''(''"
proof (induction arbitrary: k rule: motzkin.induct)
  case empty
  then show ?case by simp
next
  case (dot s)
  then show ?case by (cases k) auto
next
  case (pair a b)
  show ?case
  proof (cases k)
    case 0
    then show ?thesis by simp
  next
    case (Suc j)
    show ?thesis
    proof (cases "j \<le> length a")
      case True
      then show ?thesis using pair.IH(1) [of j] Suc by (simp add: le_Suc_eq)
    next
      case False
      then obtain i where i: "j - length a = Suc i" by (cases "j - length a") auto
      show ?thesis using False i pair.IH(2) [of i] motzkin_total [OF pair.hyps(1)] Suc
        by simp
    qed
  qed
qed

lemma motzkin_pairs:
  "motzkin w s \<Longrightarrow>
     \<exists>ps. matched_pairs stack i (s @ rest) = ps @ matched_pairs stack (i + length s) rest \<and>
          (\<forall>(p, q)\<in>set ps. w \<le> q - p - 1)"
proof (induction arbitrary: stack i rest rule: motzkin.induct)
  case empty
  then show ?case by simp
next
  case (dot s)
  from dot.IH [of stack "Suc i" rest] show ?case by simp
next
  case (pair a b)
  obtain psa where psa:
    "matched_pairs (i # stack) (Suc i) (a @ ('')'' @ b @ rest)) =
       psa @ matched_pairs (i # stack) (Suc i + length a) ('')'' @ b @ rest)"
    "\<forall>(p, q)\<in>set psa. w \<le> q - p - 1"
    using pair.IH(1) [of "i # stack" "Suc i" "'')'' @ b @ rest"] by blast
  obtain psb where psb:
    "matched_pairs stack (Suc (Suc i + length a)) (b @ rest) =
       psb @ matched_pairs stack (Suc (Suc i + length a) + length b) rest"
    "\<forall>(p, q)\<in>set psb. w \<le> q - p - 1"
    using pair.IH(2) [of stack "Suc (Suc i + length a)" rest] by blast
  have "matched_pairs stack i ((''('' @ a @ '')'' @ b) @ rest) =
      (psa @ (i, Suc i + length a) # psb) @
        matched_pairs stack (i + length (''('' @ a @ '')'' @ b)) rest"
    using psa(1) psb(1) by (simp add: add.commute add.left_commute)
  moreover have "\<forall>(p, q)\<in>set (psa @ (i, Suc i + length a) # psb). w \<le> q - p - 1"
    using psa(2) psb(2) pair.hyps(3) by auto
  ultimately show ?case by blast
qed

lemma paths_valid:
  assumes "s \<in> set (paths w n)"
  shows "prefix_balance s \<and> total_balance s \<and> minimum_width w s"
proof -
  have m: "motzkin w s" using paths_motzkin [OF assms] by simp
  have "prefix_balance s" unfolding prefix_balance_def using motzkin_prefix [OF m] by simp
  moreover have "total_balance s" unfolding total_balance_def using motzkin_total [OF m] .
  moreover have "minimum_width w s"
    unfolding minimum_width_def using motzkin_pairs [OF m, of "[]" 0 "[]"] by auto
  ultimately show ?thesis by simp
qed

text \<open>
  Claim C5. For every length and minimum width that are not negative, every string that
  \<open>motzkin_sequences\<close> yields satisfies the three invariants for that minimum width: prefix
  balance, total balance, and every matched pair encloses at least \<open>minwidth\<close> symbols.
\<close>

theorem yielded_paths_valid:
  "n < fuel \<Longrightarrow>
     \<exists>xs. motzkin_sequences fuel (int n) (int w) = Some xs \<and>
          (\<forall>s\<in>set xs. prefix_balance s \<and> total_balance s \<and> minimum_width w s)"
  using motzkin_sequences_paths [of n fuel w] paths_valid [of _ w n] by simp

theorem yielded_paths_valid_witness:
  "(5::nat) < 6 \<and>
     (\<exists>xs. motzkin_sequences 6 (int 5) (int 2) = Some xs \<and>
          (\<forall>s\<in>set xs. prefix_balance s \<and> total_balance s \<and> minimum_width 2 s))"
  using yielded_paths_valid [of 5 6 2] by simp

section \<open>No string is yielded twice\<close>

lemma distinct_concat_map:
  "distinct xs \<Longrightarrow> (\<And>x. x \<in> set xs \<Longrightarrow> distinct (f x)) \<Longrightarrow>
   (\<And>x y. x \<in> set xs \<Longrightarrow> y \<in> set xs \<Longrightarrow> x \<noteq> y \<Longrightarrow> set (f x) \<inter> set (f y) = {}) \<Longrightarrow>
   distinct (concat (map f xs))"
proof (induction xs)
  case Nil
  then show ?case by simp
next
  case (Cons x xs)
  have "distinct (concat (map f xs))" using Cons by simp
  moreover have "distinct (f x)" using Cons.prems(2) by simp
  moreover have "set (f x) \<inter> set (concat (map f xs)) = {}"
    using Cons.prems(1,3) by fastforce
  ultimately show ?case by simp
qed

lemma motzkin_split_unique:
  assumes "motzkin w a" "motzkin w a'" "a @ '')'' @ b = a' @ '')'' @ b'"
  shows "a = a'"
proof -
  have no_longer: "\<not> length x < length y"
    if "motzkin w x" "motzkin w y" "x @ '')'' @ c = y @ '')'' @ d" for x y c d
  proof
    assume len: "length x < length y"
    have "take (Suc (length x)) (y @ '')'' @ d) = take (Suc (length x)) (x @ '')'' @ c)"
      using that(3) by simp
    then have "take (Suc (length x)) y = x @ '')''" using len by simp
    then have "count_list (x @ '')'') CHR '')'' \<le> count_list (x @ '')'') CHR ''(''"
      using motzkin_prefix [OF that(2), of "Suc (length x)"] by simp
    then show False using motzkin_total [OF that(1)] by simp
  qed
  have "\<not> length a < length a'" using no_longer [OF assms] .
  moreover have "\<not> length a' < length a" using no_longer [OF assms(2,1) assms(3) [symmetric]] .
  ultimately have "length a = length a'" by simp
  then show ?thesis using assms(3) by simp
qed

lemma distinct_paths: "distinct (paths w n)"
proof (induction n rule: less_induct)
  case (less n)
  show ?case
  proof (cases n)
    case 0
    then show ?thesis by simp
  next
    case (Suc n')
    define row where "row = (\<lambda>inner inside.
        map (\<lambda>after. ''('' @ inside @ '')'' @ after) (paths w (n' - 1 - inner)))"
    define group where "group = (\<lambda>inner. concat (map (row inner) (paths w inner)))"
    have eq: "paths w n = map (\<lambda>seq. ''.'' @ seq) (paths w n') @ concat (map group [w..<n'])"
      unfolding Suc group_def row_def by simp
    have in_row: "\<exists>b. s = ''('' @ a @ '')'' @ b \<and> b \<in> set (paths w (n' - 1 - inner))"
      if "s \<in> set (row inner a)" for s inner a
      using that by (auto simp: row_def)
    have in_group: "\<exists>a b. s = ''('' @ a @ '')'' @ b \<and> a \<in> set (paths w inner)"
      if "s \<in> set (group inner)" for s inner
      using that by (auto simp: group_def row_def)
    have dots: "distinct (map (\<lambda>seq. ''.'' @ seq) (paths w n'))"
      using less [of n'] Suc by (simp add: distinct_map inj_on_def)
    have row_distinct: "distinct (row inner a)" if "inner < n'" for inner a
      unfolding row_def using less [of "n' - 1 - inner"] Suc
      by (simp add: distinct_map inj_on_def)
    have group_distinct: "distinct (group inner)" if "inner < n'" for inner
      unfolding group_def
    proof (rule distinct_concat_map)
      show "distinct (paths w inner)" using less [of inner] that Suc by simp
      show "distinct (row inner a)" for a using row_distinct that .
      show "set (row inner x) \<inter> set (row inner y) = {}"
        if "x \<in> set (paths w inner)" "y \<in> set (paths w inner)" "x \<noteq> y" for x y
      proof (rule ccontr)
        assume "set (row inner x) \<inter> set (row inner y) \<noteq> {}"
        then obtain s where "s \<in> set (row inner x)" "s \<in> set (row inner y)" by auto
        then obtain b b' where "s = ''('' @ x @ '')'' @ b" "s = ''('' @ y @ '')'' @ b'"
          using in_row by blast
        then have "x @ '')'' @ b = y @ '')'' @ b'" by simp
        moreover have "length x = length y" using that paths_motzkin by blast
        ultimately show False using that(3) by simp
      qed
    qed
    have groups: "distinct (concat (map group [w..<n']))"
    proof (rule distinct_concat_map)
      show "distinct [w..<n']" by simp
      show "distinct (group inner)" if "inner \<in> set [w..<n']" for inner
        using group_distinct that by simp
      show "set (group x) \<inter> set (group y) = {}"
        if "x \<in> set [w..<n']" "y \<in> set [w..<n']" "x \<noteq> y" for x y
      proof (rule ccontr)
        assume "set (group x) \<inter> set (group y) \<noteq> {}"
        then obtain s where "s \<in> set (group x)" "s \<in> set (group y)" by auto
        then obtain a b a' b' where s: "s = ''('' @ a @ '')'' @ b" "a \<in> set (paths w x)"
          "s = ''('' @ a' @ '')'' @ b'" "a' \<in> set (paths w y)"
          using in_group by blast
        have "a @ '')'' @ b = a' @ '')'' @ b'" using s(1,3) by simp
        moreover have "motzkin w a" "motzkin w a'" "length a = x" "length a' = y"
          using s(2,4) paths_motzkin by blast+
        ultimately show False using motzkin_split_unique that(3) by blast
      qed
    qed
    have disj: "set (map (\<lambda>seq. ''.'' @ seq) (paths w n')) \<inter>
        set (concat (map group [w..<n'])) = {}"
    proof (rule ccontr)
      assume "\<not> ?thesis"
      then obtain s where "s \<in> set (map (\<lambda>seq. ''.'' @ seq) (paths w n'))"
        "s \<in> set (concat (map group [w..<n']))" by blast
      then obtain t inner where "s = ''.'' @ t" "s \<in> set (group inner)" by auto
      then show False using in_group [of s inner] by auto
    qed
    show ?thesis unfolding eq using dots groups disj by (simp only: distinct_append)
  qed
qed

text \<open>
  Claim C6. For every length and minimum width that are not negative, the strings that one
  invocation of \<open>motzkin_sequences\<close> yields are pairwise distinct.
\<close>

theorem yielded_paths_distinct:
  "n < fuel \<Longrightarrow> \<exists>xs. motzkin_sequences fuel (int n) (int w) = Some xs \<and> distinct xs"
  using motzkin_sequences_paths [of n fuel w] distinct_paths [of w n] by simp

theorem yielded_paths_distinct_witness:
  "(6::nat) < 7 \<and> (\<exists>xs. motzkin_sequences 7 (int 6) (int 1) = Some xs \<and> distinct xs)"
  using yielded_paths_distinct [of 6 7 1] by simp

section \<open>Two invocations are independent\<close>

text \<open>
  The budget only bounds the computation: a result obtained within a budget is obtained
  within every larger one.
\<close>

lemma fuel_mono:
  "gen_next f g = Some r \<Longrightarrow> gen_next (Suc f) g = Some r"
  "dots_loop f len w sub = Some r \<Longrightarrow> dots_loop (Suc f) len w sub = Some r"
  "range_loop f len w todo = Some r \<Longrightarrow> range_loop (Suc f) len w todo = Some r"
  "list_of f g' = Some xs \<Longrightarrow> list_of (Suc f) g' = Some xs"
proof (induction f g and f len w sub and f len w todo and f g'
    arbitrary: r and r and r and xs
    rule: gen_next_dots_loop_range_loop_list_of.induct)
  case (1 g)
  then show ?case by simp
next
  case (2 fuel len minwidth)
  then show ?case by (auto split: if_splits)
next
  case (3 fuel)
  then show ?case by simp
next
  case (4 fuel len minwidth sub)
  then show ?case by simp
next
  case (5 fuel len minwidth todo inside insides stuff_after afters)
  then show ?case by (auto split: option.splits)
next
  case (6 fuel)
  then show ?case by simp
next
  case (7 fuel len minwidth sub)
  from "7.prems" obtain y sub' where s: "gen_next fuel sub = Some (y, sub')"
    by (cases "gen_next fuel sub") auto
  have s': "gen_next (Suc fuel) sub = Some (y, sub')" using "7.IH"(1) s by blast
  show ?case
  proof (cases y)
    case None
    then have "range_loop fuel len minwidth [minwidth..len - 2] = Some r"
      using "7.prems" s by simp
    then have "range_loop (Suc fuel) len minwidth [minwidth..len - 2] = Some r"
      using "7.IH"(2) s None by blast
    then show ?thesis using s' None by (simp del: gen_next.simps range_loop.simps)
  next
    case (Some seq)
    then show ?thesis using "7.prems" s s' by (simp del: gen_next.simps)
  qed
next
  case (8 fuel len minwidth)
  then show ?case by simp
next
  case (9 fuel len minwidth i todo)
  from "9.prems" obtain xs where a: "list_of fuel (Start i minwidth) = Some xs"
    by (cases "list_of fuel (Start i minwidth)") auto
  from "9.prems" a obtain ys where b: "list_of fuel (Start (len - 2 - i) minwidth) = Some ys"
    by (cases "list_of fuel (Start (len - 2 - i) minwidth)") auto
  have a': "list_of (Suc fuel) (Start i minwidth) = Some xs" using "9.IH"(1) a by blast
  have b': "list_of (Suc fuel) (Start (len - 2 - i) minwidth) = Some ys"
    using "9.IH"(2) a b by blast
  show ?case
  proof (cases xs)
    case Nil
    then have "range_loop fuel len minwidth todo = Some r" using "9.prems" a b by simp
    then have "range_loop (Suc fuel) len minwidth todo = Some r"
      using "9.IH"(3) a b Nil by blast
    then show ?thesis using a' b' Nil by (simp del: list_of.simps)
  next
    case (Cons inside insides)
    show ?thesis
    proof (cases "pairs_step inside insides ys ys")
      case None
      then have "range_loop fuel len minwidth todo = Some r"
        using "9.prems" a b Cons by simp
      then have "range_loop (Suc fuel) len minwidth todo = Some r"
        using "9.IH"(4) a b Cons None by blast
      then show ?thesis using a' b' Cons None by (simp del: list_of.simps)
    next
      case (Some t)
      then show ?thesis using "9.prems" a b a' b' Cons
        by (simp del: list_of.simps split: prod.splits)
    qed
  qed
next
  case (10 g)
  then show ?case by simp
next
  case (11 fuel g)
  from "11.prems" obtain y g2 where s: "gen_next fuel g = Some (y, g2)"
    by (cases "gen_next fuel g") auto
  have s': "gen_next (Suc fuel) g = Some (y, g2)" using "11.IH"(1) s by blast
  show ?case
  proof (cases y)
    case None
    then show ?thesis using "11.prems" s s' by (simp del: gen_next.simps)
  next
    case (Some sequence)
    from "11.prems" s Some obtain rest where r: "list_of fuel g2 = Some rest"
      by (cases "list_of fuel g2") auto
    have n: "list_of (Suc fuel) g2 = Some rest" using "11.IH"(2) s Some r by blast
    have xs: "xs = sequence # rest" using "11.prems" s Some r by simp
    have s'': "gen_next (Suc fuel) g = Some (Some sequence, g2)" using s' Some by simp
    have "list_of (Suc (Suc fuel)) g =
        (case gen_next (Suc fuel) g of
           None \<Rightarrow> None
         | Some (None, g') \<Rightarrow> Some []
         | Some (Some sequence, g') \<Rightarrow>
            (case list_of (Suc fuel) g' of None \<Rightarrow> None | Some rest \<Rightarrow> Some (sequence # rest)))"
      by (rule list_of.simps(2))
    also have "\<dots> = Some (sequence # rest)"
      by (simp only: s'' n option.case prod.case)
    finally show ?thesis using xs by simp
  qed
qed

lemma gen_next_mono: "f \<le> f' \<Longrightarrow> gen_next f g = Some r \<Longrightarrow> gen_next f' g = Some r"
  by (induction f' rule: dec_induct) (auto intro: fuel_mono(1) simp del: gen_next.simps)

lemma list_of_mono: "f \<le> f' \<Longrightarrow> list_of f g = Some xs \<Longrightarrow> list_of f' g = Some xs"
  by (induction f' rule: dec_induct) (auto intro: fuel_mono(4) simp del: list_of.simps)

lemma range_loop_mono:
  "f \<le> f' \<Longrightarrow> range_loop f len w todo = Some r \<Longrightarrow> range_loop f' len w todo = Some r"
  by (induction f' rule: dec_induct) (auto intro: fuel_mono(3) simp del: range_loop.simps)

lemma list_of_Cons_step:
  "list_of f g = Some (x # xs) \<Longrightarrow>
     \<exists>f' g'. gen_next f' g = Some (Some x, g') \<and> list_of f' g' = Some xs"
  by (cases f) (auto split: option.splits prod.splits)

lemma list_of_Nil_step:
  "list_of f g = Some [] \<Longrightarrow> \<exists>f' g'. gen_next f' g = Some (None, g')"
  by (cases f) (auto split: option.splits prod.splits)

lemma list_of_same_step:
  "gen_next f g1 = gen_next f g2 \<Longrightarrow> list_of (Suc f) g1 = list_of (Suc f) g2"
  by simp

lemma list_of_ConsI:
  assumes "gen_next f1 g = Some (Some x, g')" "list_of f2 g' = Some xs"
  shows "\<exists>f. list_of f g = Some (x # xs)"
proof -
  have "gen_next (max f1 f2) g = Some (Some x, g')"
    using assms(1) by (rule gen_next_mono [rotated]) simp
  moreover have "list_of (max f1 f2) g' = Some xs"
    using assms(2) by (rule list_of_mono [rotated]) simp
  ultimately have "list_of (Suc (max f1 f2)) g = Some (x # xs)" by simp
  then show ?thesis ..
qed

lemma pairs_step_None: "pairs_step i is sa af = None \<Longrightarrow> pairs_list i is sa af = []"
  by (induction i "is" sa af rule: pairs_step.induct) (auto simp: pairs_list_def)

lemma pairs_step_Some:
  "pairs_step i is sa af = Some (s, i', is', af') \<Longrightarrow>
     pairs_list i is sa af = s # pairs_list i' is' sa af'"
  by (induction i "is" sa af rule: pairs_step.induct) (auto simp: pairs_list_def)

lemma parens_yield:
  assumes R: "list_of fR (InParens len w todo [] [] [] []) = Some R"
  shows "\<exists>f. list_of f (InParens len w todo inside insides sa afters) =
            Some (pairs_list inside insides sa afters @ R)"
proof (induction "length (pairs_list inside insides sa afters)" arbitrary: inside insides afters
    rule: less_induct)
  case less
  show ?case
  proof (cases "pairs_step inside insides sa afters")
    case None
    have "gen_next fR (InParens len w todo inside insides sa afters) =
        gen_next fR (InParens len w todo [] [] [] [])"
      using None by (cases fR) auto
    then have "list_of (Suc fR) (InParens len w todo inside insides sa afters) =
        list_of (Suc fR) (InParens len w todo [] [] [] [])"
      by (rule list_of_same_step)
    also have "\<dots> = Some R" using R by (rule fuel_mono(4))
    finally have "list_of (Suc fR) (InParens len w todo inside insides sa afters) = Some R" .
    then show ?thesis unfolding pairs_step_None [OF None]
      by (intro exI [of _ "Suc fR"]) (simp del: list_of.simps)
  next
    case (Some t)
    obtain s i' is' af' where t: "t = (s, i', is', af')" by (cases t)
    have pl: "pairs_list inside insides sa afters = s # pairs_list i' is' sa af'"
      using pairs_step_Some Some t by simp
    then obtain f2 where f2: "list_of f2 (InParens len w todo i' is' sa af') =
        Some (pairs_list i' is' sa af' @ R)"
      using less [of i' is' af'] by auto
    have "gen_next 1 (InParens len w todo inside insides sa afters) =
        Some (Some s, InParens len w todo i' is' sa af')"
      using Some t by simp
    then show ?thesis using list_of_ConsI f2 pl by fastforce
  qed
qed

lemma paths_not_Nil: "paths w n \<noteq> []"
  by (induction n) auto

lemma paths_Cons: "\<exists>p ps. paths w n = p # ps"
  using paths_not_Nil [of w n] by (simp add: neq_Nil_conv)

lemma range_yield:
  assumes sub: "\<And>k. k < Suc n \<Longrightarrow> \<exists>f. list_of f (Start (int k) (int w)) = Some (paths w k)"
  shows "\<forall>i\<in>set todo. i < n \<Longrightarrow>
     \<exists>f. list_of f (InParens (int (Suc n)) (int w) (map int todo) [] [] [] []) =
       Some (concat (map (\<lambda>inner.
                concat (map (\<lambda>inside. map (\<lambda>after. ''('' @ inside @ '')'' @ after)
                                          (paths w (n - 1 - inner)))
                            (paths w inner)))
             todo))"
proof (induction todo)
  case Nil
  have "gen_next (Suc 0) (InParens (int (Suc n)) (int w) [] [] [] [] []) = Some (None, Finished)"
    by simp
  then have "list_of (Suc (Suc 0)) (InParens (int (Suc n)) (int w) [] [] [] [] []) = Some []"
    by (simp del: gen_next.simps)
  then show ?case by (intro exI [of _ "Suc (Suc 0)"]) (simp del: list_of.simps)
next
  case (Cons i todo)
  define R where "R = concat (map (\<lambda>inner.
                concat (map (\<lambda>inside. map (\<lambda>after. ''('' @ inside @ '')'' @ after)
                                          (paths w (n - 1 - inner)))
                            (paths w inner)))
             todo)"
  from Cons have i: "i < n" by simp
  have a: "int (Suc n) - 2 - int i = int (n - 1 - i)" using i by simp
  obtain fR where fR: "list_of fR (InParens (int (Suc n)) (int w) (map int todo) [] [] [] []) =
      Some R"
    using Cons unfolding R_def by auto
  obtain f1 where f1: "list_of f1 (Start (int i) (int w)) = Some (paths w i)"
    using sub [of i] i by auto
  have "n - 1 - i < Suc n" by simp
  from sub [OF this] obtain f2 where
    f2: "list_of f2 (Start (int (n - 1 - i)) (int w)) = Some (paths w (n - 1 - i))" ..
  obtain inside insides where ins: "paths w i = inside # insides"
    using paths_Cons by blast
  obtain af afs where afs: "paths w (n - 1 - i) = af # afs"
    using paths_Cons by blast
  define F where "F = max f1 f2"
  have l1: "list_of F (Start (int i) (int w)) = Some (inside # insides)"
    using list_of_mono [OF _ f1, of F] ins by (simp add: F_def)
  have l2: "list_of F (Start (int (n - 1 - i)) (int w)) = Some (af # afs)"
    using list_of_mono [OF _ f2, of F] afs by (simp add: F_def)
  have "range_loop F (int (Suc n)) (int w) (int i # map int todo) =
      Some (Some (''('' @ inside @ '')'' @ af),
            InParens (int (Suc n)) (int w) (map int todo) inside insides (af # afs) afs)"
    by (simp only: range_loop.simps l1 l2 a option.case list.case pairs_step.simps prod.case)
  then have step: "gen_next (Suc F) (InParens (int (Suc n)) (int w) (map int (i # todo)) [] [] [] []) =
      Some (Some (''('' @ inside @ '')'' @ af),
            InParens (int (Suc n)) (int w) (map int todo) inside insides (af # afs) afs)"
    by (simp del: range_loop.simps)
  obtain f3 where f3:
    "list_of f3 (InParens (int (Suc n)) (int w) (map int todo) inside insides (af # afs) afs) =
       Some (pairs_list inside insides (af # afs) afs @ R)"
    using parens_yield [OF fR] by blast
  have "\<exists>f. list_of f (InParens (int (Suc n)) (int w) (map int (i # todo)) [] [] [] []) =
      Some ((''('' @ inside @ '')'' @ af) # pairs_list inside insides (af # afs) afs @ R)"
    using list_of_ConsI [OF step f3] .
  moreover have "(''('' @ inside @ '')'' @ af) # pairs_list inside insides (af # afs) afs @ R =
      concat (map (\<lambda>inner.
                concat (map (\<lambda>inside. map (\<lambda>after. ''('' @ inside @ '')'' @ after)
                                          (paths w (n - 1 - inner)))
                            (paths w inner)))
             (i # todo))"
  proof -
    have afs': "paths w (n - Suc i) = af # afs" using afs by simp
    show ?thesis by (simp add: pairs_list_def R_def ins afs')
  qed
  ultimately show ?case by simp
qed

lemma dots_yield:
  assumes R: "list_of fR (InParens (int (Suc n)) (int w) (map int [w..<n]) [] [] [] []) = Some R"
  shows "list_of f0 sub = Some xs \<Longrightarrow>
     \<exists>f. list_of f (InDots (int (Suc n)) (int w) sub) = Some (map (\<lambda>seq. ''.'' @ seq) xs @ R)"
proof (induction xs arbitrary: sub f0)
  case Nil
  obtain f1 g' where f1: "gen_next f1 sub = Some (None, g')"
    using list_of_Nil_step [OF Nil] by blast
  define F where "F = max f1 fR"
  have s: "gen_next F sub = Some (None, g')"
    using gen_next_mono [OF _ f1, of F] by (simp add: F_def)
  have rng: "[int w..int (Suc n) - 2] = map int [w..<n]"
    using upto_int_conv [of w n] by simp
  have "dots_loop F (int (Suc n)) (int w) sub =
      range_loop F (int (Suc n)) (int w) (map int [w..<n])"
    by (simp only: dots_loop.simps s option.case prod.case rng)
  then have "gen_next (Suc F) (InDots (int (Suc n)) (int w) sub) =
      gen_next (Suc F) (InParens (int (Suc n)) (int w) (map int [w..<n]) [] [] [] [])"
    by (simp del: dots_loop.simps range_loop.simps)
  then have "list_of (Suc (Suc F)) (InDots (int (Suc n)) (int w) sub) =
      list_of (Suc (Suc F)) (InParens (int (Suc n)) (int w) (map int [w..<n]) [] [] [] [])"
    by (rule list_of_same_step)
  also have "\<dots> = Some R"
    using list_of_mono [OF _ R, of "Suc (Suc F)"] by (simp add: F_def del: list_of.simps)
  finally show ?case by (intro exI [of _ "Suc (Suc F)"]) (simp del: list_of.simps)
next
  case (Cons x xs)
  obtain f1 sub' where f1: "gen_next f1 sub = Some (Some x, sub')" "list_of f1 sub' = Some xs"
    using list_of_Cons_step [OF Cons.prems] by blast
  obtain f2 where f2: "list_of f2 (InDots (int (Suc n)) (int w) sub') =
      Some (map (\<lambda>seq. ''.'' @ seq) xs @ R)"
    using Cons.IH [OF f1(2)] by blast
  have "dots_loop f1 (int (Suc n)) (int w) sub =
      Some (Some (''.'' @ x), InDots (int (Suc n)) (int w) sub')"
    by (simp only: dots_loop.simps f1(1) option.case prod.case)
  then have "gen_next (Suc f1) (InDots (int (Suc n)) (int w) sub) =
      Some (Some (''.'' @ x), InDots (int (Suc n)) (int w) sub')"
    by (simp del: dots_loop.simps)
  from list_of_ConsI [OF this f2] show ?case by simp
qed

lemma start_yield: "\<exists>f. list_of f (Start (int n) (int w)) = Some (paths w n)"
proof (induction n rule: less_induct)
  case (less n)
  show ?case
  proof (cases n)
    case 0
    have "list_of (Suc (Suc (Suc 0))) (Start 0 (int w)) = Some ['''']" by simp
    then show ?thesis using 0 by (intro exI [of _ "Suc (Suc (Suc 0))"]) (simp del: list_of.simps)
  next
    case (Suc n')
    define R where "R = concat (map (\<lambda>inner.
                concat (map (\<lambda>inside. map (\<lambda>after. ''('' @ inside @ '')'' @ after)
                                          (paths w (n' - 1 - inner)))
                            (paths w inner)))
             [w..<n'])"
    have eq: "paths w (Suc n') = map (\<lambda>seq. ''.'' @ seq) (paths w n') @ R"
      unfolding R_def by (rule paths.simps(2))
    have "n' < n" using Suc by simp
    from less [OF this] obtain f0 where
      f0: "list_of f0 (Start (int n') (int w)) = Some (paths w n')" ..
    have "\<exists>f. list_of f (InParens (int (Suc n')) (int w) (map int [w..<n']) [] [] [] []) = Some R"
      unfolding R_def
    proof (rule range_yield)
      show "\<exists>f. list_of f (Start (int k) (int w)) = Some (paths w k)" if "k < Suc n'" for k
        using less [of k] that Suc by simp
      show "\<forall>i\<in>set [w..<n']. i < n'" by simp
    qed
    then obtain fR where
      fR: "list_of fR (InParens (int (Suc n')) (int w) (map int [w..<n']) [] [] [] []) = Some R" ..
    from dots_yield [OF fR f0] obtain f where
      f: "list_of f (InDots (int (Suc n')) (int w) (Start (int n') (int w))) =
        Some (map (\<lambda>seq. ''.'' @ seq) (paths w n') @ R)" ..
    have f1: "list_of (Suc (Suc f)) (InDots (int (Suc n')) (int w) (Start (int n') (int w))) =
        Some (paths w (Suc n'))"
      unfolding eq using list_of_mono [OF _ f, of "Suc (Suc f)"] by (simp del: list_of.simps)
    have "int (Suc n') \<noteq> 0" by simp
    then have "gen_next (Suc f) (Start (int (Suc n')) (int w)) =
        dots_loop f (int (Suc n')) (int w) (Start (int (Suc n') - 1) (int w))"
      by (simp only: gen_next.simps if_False)
    also have "int (Suc n') - 1 = int n'" by simp
    finally have "gen_next (Suc f) (Start (int (Suc n')) (int w)) =
        gen_next (Suc f) (InDots (int (Suc n')) (int w) (Start (int n') (int w)))"
      by (simp only: gen_next.simps)
    then have "list_of (Suc (Suc f)) (Start (int (Suc n')) (int w)) =
        list_of (Suc (Suc f)) (InDots (int (Suc n')) (int w) (Start (int n') (int w)))"
      by (rule list_of_same_step)
    then have "list_of (Suc (Suc f)) (Start (int n) (int w)) = Some (paths w n)"
      using f1 Suc by (simp del: list_of.simps gen_next.simps)
    then show ?thesis ..
  qed
qed

lemma stop_Finished:
  "gen_next f g = Some (None, g1) \<Longrightarrow> g1 = Finished"
  "dots_loop f len w sub = Some (None, g1) \<Longrightarrow> g1 = Finished"
  "range_loop f len w todo = Some (None, g1) \<Longrightarrow> g1 = Finished"
  "list_of f g' = list_of f g'"
proof (induction f g and f len w sub and f len w todo and f g'
    arbitrary: g1 and g1 and g1 and
    rule: gen_next_dots_loop_range_loop_list_of.induct)
  case (2 fuel len minwidth)
  then show ?case by (auto split: if_splits)
next
  case (5 fuel len minwidth todo inside insides stuff_after afters)
  then show ?case by (auto split: option.splits)
next
  case (7 fuel len minwidth sub)
  then show ?case by (auto split: option.splits prod.splits)
next
  case (9 fuel len minwidth i todo)
  then show ?case by (auto split: option.splits prod.splits list.splits)
qed auto

lemma list_of_Finished: "list_of (Suc (Suc 0)) Finished = Some []"
  by simp

lemma interleave_mono:
  "f \<le> f' \<Longrightarrow> interleave f schedule g1 g2 = Some r \<Longrightarrow> interleave f' schedule g1 g2 = Some r"
proof (induction schedule arbitrary: g1 g2 r)
  case Nil
  then show ?case by simp
next
  case (Cons b schedule)
  show ?case
  proof (cases b)
    case True
    from Cons.prems(2) True obtain y g1' where s: "gen_next f g1 = Some (y, g1')"
      by (cases "gen_next f g1") auto
    from Cons.prems(2) True s obtain r' where r': "interleave f schedule g1' g2 = Some r'"
      by (cases "interleave f schedule g1' g2") auto
    have "gen_next f' g1 = Some (y, g1')" using gen_next_mono [OF Cons.prems(1) s] .
    moreover have "interleave f' schedule g1' g2 = Some r'"
      using Cons.IH [OF Cons.prems(1) r'] .
    ultimately show ?thesis using Cons.prems(2) True s r' by (simp del: gen_next.simps)
  next
    case False
    from Cons.prems(2) False obtain y g2' where s: "gen_next f g2 = Some (y, g2')"
      by (cases "gen_next f g2") auto
    from Cons.prems(2) False s obtain r' where r': "interleave f schedule g1 g2' = Some r'"
      by (cases "interleave f schedule g1 g2'") auto
    have "gen_next f' g2 = Some (y, g2')" using gen_next_mono [OF Cons.prems(1) s] .
    moreover have "interleave f' schedule g1 g2' = Some r'"
      using Cons.IH [OF Cons.prems(1) r'] .
    ultimately show ?thesis using Cons.prems(2) False s r' by (simp del: gen_next.simps)
  qed
qed

lemma next_of_list:
  assumes "list_of f g = Some xs"
  shows "\<exists>f' g'. gen_next f' g = Some (case xs of [] \<Rightarrow> None | x # _ \<Rightarrow> Some x, g') \<and>
              list_of f' g' = Some (tl xs)"
proof (cases xs)
  case Nil
  obtain f1 g' where f1: "gen_next f1 g = Some (None, g')"
    using list_of_Nil_step assms Nil by blast
  then have g': "g' = Finished" by (rule stop_Finished(1))
  have "gen_next (max f1 2) g = Some (None, Finished)"
    using gen_next_mono [OF _ f1, of "max f1 2"] g' by simp
  moreover have "list_of (max f1 2) Finished = Some []"
    using list_of_mono [OF _ list_of_Finished, of "max f1 2"] by simp
  ultimately show ?thesis using Nil by auto
next
  case (Cons x xs')
  then show ?thesis using list_of_Cons_step assms by fastforce
qed

lemma interleave_take:
  "list_of f1 g1 = Some xs \<Longrightarrow> list_of f2 g2 = Some ys \<Longrightarrow>
     \<exists>f. interleave f schedule g1 g2 =
       Some (take (count_list schedule True) xs, take (count_list schedule False) ys)"
proof (induction schedule arbitrary: g1 g2 xs ys f1 f2)
  case Nil
  then show ?case by simp
next
  case (Cons b schedule)
  show ?case
  proof (cases b)
    case True
    obtain fa g1' where a: "gen_next fa g1 = Some (case xs of [] \<Rightarrow> None | x # _ \<Rightarrow> Some x, g1')"
      "list_of fa g1' = Some (tl xs)"
      using next_of_list [OF Cons.prems(1)] by blast
    obtain fb where b: "interleave fb schedule g1' g2 =
        Some (take (count_list schedule True) (tl xs), take (count_list schedule False) ys)"
      using Cons.IH [OF a(2) Cons.prems(2)] by blast
    define F where "F = max fa fb"
    have a': "gen_next F g1 = Some (case xs of [] \<Rightarrow> None | x # _ \<Rightarrow> Some x, g1')"
      using gen_next_mono [OF _ a(1), of F] by (simp add: F_def)
    have b': "interleave F schedule g1' g2 =
        Some (take (count_list schedule True) (tl xs), take (count_list schedule False) ys)"
      using interleave_mono [OF _ b, of F] by (simp add: F_def)
    have "interleave F (True # schedule) g1 g2 =
        Some (take (count_list (True # schedule) True) xs,
              take (count_list (True # schedule) False) ys)"
      by (cases xs) (simp_all add: a' b' del: gen_next.simps)
    then have "interleave F (b # schedule) g1 g2 =
        Some (take (count_list (b # schedule) True) xs, take (count_list (b # schedule) False) ys)"
      using True by (simp del: gen_next.simps interleave.simps)
    then show ?thesis ..
  next
    case False
    obtain fa g2' where a: "gen_next fa g2 = Some (case ys of [] \<Rightarrow> None | y # _ \<Rightarrow> Some y, g2')"
      "list_of fa g2' = Some (tl ys)"
      using next_of_list [OF Cons.prems(2)] by blast
    obtain fb where b: "interleave fb schedule g1 g2' =
        Some (take (count_list schedule True) xs, take (count_list schedule False) (tl ys))"
      using Cons.IH [OF Cons.prems(1) a(2)] by blast
    define F where "F = max fa fb"
    have a': "gen_next F g2 = Some (case ys of [] \<Rightarrow> None | y # _ \<Rightarrow> Some y, g2')"
      using gen_next_mono [OF _ a(1), of F] by (simp add: F_def)
    have b': "interleave F schedule g1 g2' =
        Some (take (count_list schedule True) xs, take (count_list schedule False) (tl ys))"
      using interleave_mono [OF _ b, of F] by (simp add: F_def)
    have "interleave F (False # schedule) g1 g2 =
        Some (take (count_list (False # schedule) True) xs,
              take (count_list (False # schedule) False) ys)"
      by (cases ys) (simp_all add: a' b' del: gen_next.simps)
    then have "interleave F (b # schedule) g1 g2 =
        Some (take (count_list (b # schedule) True) xs, take (count_list (b # schedule) False) ys)"
      using False by (simp del: gen_next.simps interleave.simps)
    then show ?thesis ..
  qed
qed

text \<open>
  Claim C9. For every length and minimum width that are not negative, two invocations of
  \<open>motzkin_sequences\<close> give two generator objects, each with its own state, and however the
  calls of \<^verbatim>\<open>next()\<close> on the two are interleaved, each object yields the strings of the same
  list in the same order: after \<open>k\<close> calls on an object it has yielded the first \<open>k\<close> strings
  of the result (all of them when \<open>k\<close> exceeds their number). That list is the one the
  object yields when it is consumed alone, and the one that \<open>motzkin_sequences\<close> returns.
\<close>

theorem independent_invocations:
  "\<exists>fuel xs. motzkin_sequences fuel (int n) (int w) = Some xs \<and>
      list_of fuel (Start (int n) (int w)) = Some xs \<and>
      interleave fuel schedule (Start (int n) (int w)) (Start (int n) (int w)) =
        Some (take (count_list schedule True) xs, take (count_list schedule False) xs)"
proof -
  obtain f1 where f1: "list_of f1 (Start (int n) (int w)) = Some (paths w n)"
    using start_yield by blast
  obtain f2 where f2: "interleave f2 schedule (Start (int n) (int w)) (Start (int n) (int w)) =
      Some (take (count_list schedule True) (paths w n),
            take (count_list schedule False) (paths w n))"
    using interleave_take [OF f1 f1] by blast
  define F where "F = max (Suc n) (max f1 f2)"
  have "motzkin_sequences F (int n) (int w) = Some (paths w n)"
    by (rule motzkin_sequences_paths) (simp add: F_def)
  moreover have "list_of F (Start (int n) (int w)) = Some (paths w n)"
    using list_of_mono [OF _ f1, of F] by (simp add: F_def)
  moreover have "interleave F schedule (Start (int n) (int w)) (Start (int n) (int w)) =
      Some (take (count_list schedule True) (paths w n),
            take (count_list schedule False) (paths w n))"
    using interleave_mono [OF _ f2, of F] by (simp add: F_def)
  ultimately show ?thesis by blast
qed

end
